theory Spec2Isabelle
  imports Main "HOL-Library.Monad_Syntax"
begin

section \<open>Nodes, the store and the solver object\<close>

text \<open>
  A \<open>Node<int>*\<close> is an address; address \<open>0\<close> is \<open>NULL\<close>. A node is the record of the
  fields of \<open>class Node\<close> (exact_cover.hpp). The default constructor leaves \<open>value_\<close>
  uninitialised; no modelled code reads it on such a node, and the model stores \<open>0\<close> there.
  A member \<open>x_\<close> of \<open>Node\<close> is written \<open>x_n\<close>, a member \<open>x_\<close> of \<open>ExactCoverSolver\<close> is
  written \<open>x_s\<close>.
\<close>

type_synonym ptr = nat

record node =
  value_n :: int
  row_n :: int
  col_n :: int
  header_n :: bool
  left_n :: ptr
  right_n :: ptr
  top_n :: ptr
  bottom_n :: ptr
  col_header_n :: ptr

type_synonym store = "ptr \<Rightarrow> node"

type_synonym grid = "int list list"

text \<open>\<open>Node ()\<close> and \<open>Node (r, c, v)\<close>.\<close>

definition Node0 :: node where
  "Node0 = \<lparr>value_n = 0, row_n = - 1, col_n = - 1, header_n = False,
     left_n = 0, right_n = 0, top_n = 0, bottom_n = 0, col_header_n = 0\<rparr>"

definition Node3 :: "int \<Rightarrow> int \<Rightarrow> int \<Rightarrow> node" where
  "Node3 r c v = \<lparr>value_n = v, row_n = r, col_n = c, header_n = False,
     left_n = 0, right_n = 0, top_n = 0, bottom_n = 0, col_header_n = 0\<rparr>"

text \<open>The messages the solver prints on \<open>std::cout\<close> and \<open>std::cerr\<close>.\<close>

datatype message =
    Invalid_puzzle
  | Repeated_or_invalid int int int
  | Not_solvable

text \<open>
  The fields of \<open>class ExactCoverSolver\<close>, the store its nodes live in, the next address
  \<open>new\<close> hands out, and the messages printed so far. The stack \<open>running_sol_\<close> is a list
  whose head is the top.
\<close>

record solver =
  store :: store
  fresh :: ptr
  root_s :: ptr
  running_sol_s :: "ptr list"
  solved_s :: bool
  total_competition_s :: int
  GRID_SIZE_s :: int
  ROW_OFFSET_s :: int
  COL_OFFSET_s :: int
  CELL_OFFSET_s :: int
  BOX_OFFSET_s :: int
  MAX_COLS_s :: int
  MAX_ROWS_s :: int
  COL_BOX_DIV_s :: int
  ROW_BOX_DIV_s :: int
  printed :: "message list"

section \<open>\<open>ExactCoverSolver::output\<close>\<close>

text \<open>
  \<open>output_grid[next->row_][next->col_] = next->value_ + 1\<close> for every node popped from
  \<open>running_sol_\<close>. An index outside the grid or a \<open>NULL\<close> entry is undefined behaviour in
  the source; the model returns \<open>None\<close> there. The method is written \<open>output_ec\<close>.
\<close>

definition put_cell :: "grid \<Rightarrow> int \<Rightarrow> int \<Rightarrow> int \<Rightarrow> grid option" where
  "put_cell g r c v =
     (if 0 \<le> r \<and> nat r < length g \<and> 0 \<le> c \<and> nat c < length (g ! nat r)
      then Some (g[nat r := (g ! nat r)[nat c := v]])
      else None)"

fun output_loop :: "store \<Rightarrow> ptr list \<Rightarrow> grid \<Rightarrow> grid option" where
  "output_loop h [] g = Some g"
| "output_loop h (next # rest) g =
     (if next = 0 then None
      else case put_cell g (row_n (h next)) (col_n (h next)) (value_n (h next) + 1) of
             None \<Rightarrow> None
           | Some g' \<Rightarrow> output_loop h rest g')"

definition output_ec :: "solver \<Rightarrow> grid \<Rightarrow> (solver \<times> grid) option" where
  "output_ec s output_grid =
     (if running_sol_s s \<noteq> []
      then (case output_loop (store s) (running_sol_s s) output_grid of
              None \<Rightarrow> None
            | Some g' \<Rightarrow> Some (s\<lparr>running_sol_s := []\<rparr>, g'))
      else Some (s, output_grid))"

definition is_solved :: "solver \<Rightarrow> bool" where
  "is_solved s = solved_s s"

section \<open>The choice of engine in \<open>SudokuSolver::solve\<close>\<close>

datatype engine = Engine_EC | Engine_CSP | Engine_none

definition CSP_TECH :: int where "CSP_TECH = 1"

definition DLX_TECH :: int where "DLX_TECH = 2"

text \<open>
  The body of the loop over the puzzles: \<open>solve_EC\<close> if
  \<open>technique_ == DLX_TECH || grid_size_ > 9\<close>, else \<open>sovle_CSP\<close> if
  \<open>technique_ == CSP_TECH\<close>. The model records which engine each puzzle is given to.
\<close>

definition engine_for :: "int \<Rightarrow> int \<Rightarrow> engine" where
  "engine_for technique grid_size =
     (if technique = DLX_TECH \<or> grid_size > 9 then Engine_EC
      else if technique = CSP_TECH then Engine_CSP
      else Engine_none)"

definition solve_engines :: "int \<Rightarrow> int \<Rightarrow> 'p list \<Rightarrow> engine list" where
  "solve_engines technique grid_size puzzles = map (\<lambda>p. engine_for technique grid_size) puzzles"

section \<open>Field updates and allocation\<close>

definition set_left :: "store \<Rightarrow> ptr \<Rightarrow> ptr \<Rightarrow> store" where
  "set_left h p v = h(p := (h p)\<lparr>left_n := v\<rparr>)"

definition set_right :: "store \<Rightarrow> ptr \<Rightarrow> ptr \<Rightarrow> store" where
  "set_right h p v = h(p := (h p)\<lparr>right_n := v\<rparr>)"

definition set_top :: "store \<Rightarrow> ptr \<Rightarrow> ptr \<Rightarrow> store" where
  "set_top h p v = h(p := (h p)\<lparr>top_n := v\<rparr>)"

definition set_bottom :: "store \<Rightarrow> ptr \<Rightarrow> ptr \<Rightarrow> store" where
  "set_bottom h p v = h(p := (h p)\<lparr>bottom_n := v\<rparr>)"

definition set_col_header :: "store \<Rightarrow> ptr \<Rightarrow> ptr \<Rightarrow> store" where
  "set_col_header h p v = h(p := (h p)\<lparr>col_header_n := v\<rparr>)"

definition set_header :: "store \<Rightarrow> ptr \<Rightarrow> bool \<Rightarrow> store" where
  "set_header h p v = h(p := (h p)\<lparr>header_n := v\<rparr>)"

text \<open>\<open>new Node<int> (...)\<close>: the next address, which is never \<open>NULL\<close>.\<close>

definition alloc :: "node \<Rightarrow> solver \<Rightarrow> ptr \<times> solver" where
  "alloc n s = (fresh s, s\<lparr>store := (store s)(fresh s := n), fresh := Suc (fresh s)\<rparr>)"

section \<open>The constructor and \<open>ExactCoverSolver::init\<close>\<close>

text \<open>The constructor: all sizes \<open>0\<close>, and a root header that is its own four neighbours.\<close>

definition ExactCoverSolver :: solver where
  "ExactCoverSolver =
     \<lparr>store = (\<lambda>p. Node0)
        (1 := Node0\<lparr>header_n := True, left_n := 1, right_n := 1, top_n := 1, bottom_n := 1\<rparr>),
      fresh = 2, root_s = 1, running_sol_s = [], solved_s = False,
      total_competition_s = 0, GRID_SIZE_s = 0, ROW_OFFSET_s = 0, COL_OFFSET_s = 0,
      CELL_OFFSET_s = 0, BOX_OFFSET_s = 0, MAX_COLS_s = 0, MAX_ROWS_s = 0,
      COL_BOX_DIV_s = 0, ROW_BOX_DIV_s = 0, printed = []\<rparr>"

text \<open>
  The local array \<open>matrix[MAX_ROWS_][MAX_COLS_]\<close> of \<open>init\<close>, all \<open>NULL\<close> at first. The
  body of the triple loop makes the four nodes of the placement \<open>(i, j, k)\<close>, enters them
  in the matrix and links them into a horizontal cycle.
\<close>

type_synonym matrix = "nat \<times> nat \<Rightarrow> ptr"

definition init_cell :: "nat \<Rightarrow> nat \<Rightarrow> nat \<Rightarrow> matrix \<times> solver \<Rightarrow> matrix \<times> solver" where
  "init_cell i j k ms =
     (let (matrix, s) = ms;
          G = nat (GRID_SIZE_s s);
          row = i * nat (COL_OFFSET_s s) + j * G + k;
          (row_node, s) = alloc (Node3 (int i) (int j) (int k)) s;
          matrix = matrix((row, nat (ROW_OFFSET_s s) + (i * G + k)) := row_node);
          (col_node, s) = alloc (Node3 (int i) (int j) (int k)) s;
          matrix = matrix((row, nat (COL_OFFSET_s s) + (j * G + k)) := col_node);
          (cell_node, s) = alloc (Node3 (int i) (int j) (int k)) s;
          matrix = matrix((row, nat (CELL_OFFSET_s s) + (i * G + j)) := cell_node);
          tmp = nat (BOX_OFFSET_s s)
                + ((i div nat (ROW_BOX_DIV_s s)
                    + j div nat (COL_BOX_DIV_s s) * nat (COL_BOX_DIV_s s)) * G + k);
          (box_node, s) = alloc (Node3 (int i) (int j) (int k)) s;
          matrix = matrix((row, tmp) := box_node);
          h = store s;
          h = set_right h row_node col_node;
          h = set_left h row_node box_node;
          h = set_left h col_node row_node;
          h = set_right h col_node cell_node;
          h = set_left h cell_node col_node;
          h = set_right h cell_node box_node;
          h = set_left h box_node cell_node;
          h = set_right h box_node row_node
      in (matrix, s\<lparr>store := h\<rparr>))"

definition init_cells :: "solver \<Rightarrow> matrix \<times> solver" where
  "init_cells s =
     (let G = nat (GRID_SIZE_s s)
      in fold (\<lambda>i. fold (\<lambda>j. fold (\<lambda>k. init_cell i j k) [0..<G]) [0..<G]) [0..<G]
           (\<lambda>rc. 0, s))"

text \<open>The body of the loop that hangs the nodes of column \<open>j\<close> under its header.\<close>

definition link_cell :: "matrix \<Rightarrow> ptr \<Rightarrow> nat \<Rightarrow> nat \<Rightarrow> store \<times> ptr \<Rightarrow> store \<times> ptr" where
  "link_cell matrix next_col_header j i hn =
     (let (h, next_col_row) = hn; m = matrix (i, j)
      in if m \<noteq> 0
         then let h = set_top h m next_col_row;
                  h = set_bottom h next_col_row m;
                  h = set_bottom h m next_col_header;
                  h = set_top h next_col_header m;
                  h = set_col_header h m next_col_header
              in (h, m)
         else (h, next_col_row))"

text \<open>
  \<open>create_col_helper\<close> walks right from the root to the last header and appends the new
  one. The walk need not end on an arbitrary store, so the function is partial.
\<close>

partial_function (option) create_col_helper ::
  "store \<Rightarrow> ptr \<Rightarrow> ptr \<Rightarrow> ptr \<Rightarrow> (bool \<times> store) option" where
  "create_col_helper h root new_node curr_root =
     (if curr_root = 0 then None
      else if right_n (h curr_root) = root \<and> curr_root \<noteq> new_node
      then (if right_n (h curr_root) = 0 \<or> new_node = 0 then None
            else let h = set_left h (right_n (h curr_root)) new_node;
                     h = set_right h new_node (right_n (h curr_root));
                     h = set_left h new_node curr_root;
                     h = set_right h curr_root new_node
                 in Some (True, h))
      else if curr_root = new_node then Some (False, h)
      else create_col_helper h root new_node (right_n (h curr_root)))"

declare create_col_helper.simps [code]

definition create_col :: "store \<Rightarrow> ptr \<Rightarrow> ptr \<Rightarrow> (bool \<times> store) option" where
  "create_col h root new_node =
     (if new_node = 0 then Some (False, h)
      else if \<not> header_n (h new_node) then Some (False, h)
      else create_col_helper h root new_node root)"

text \<open>
  The loop over the columns, with its two early returns. The \<open>delete\<close>s before the second
  one are not modelled: the store has no notion of freed memory.
\<close>

fun link_columns :: "matrix \<Rightarrow> nat list \<Rightarrow> solver \<Rightarrow> (bool \<times> solver) option" where
  "link_columns matrix [] s = Some (True, s)"
| "link_columns matrix (j # js) s =
     (let (next_col_header, s1) = alloc Node0 s;
          h = store s1;
          h = set_header h next_col_header True;
          h = set_top h next_col_header next_col_header;
          h = set_bottom h next_col_header next_col_header;
          h = set_left h next_col_header next_col_header;
          h = set_right h next_col_header next_col_header;
          h = set_col_header h next_col_header next_col_header;
          (h, next_col_row) =
             fold (link_cell matrix next_col_header j) [0..<nat (MAX_ROWS_s s)]
               (h, next_col_header)
      in if bottom_n (h next_col_header) = next_col_header
         then Some (False, s1\<lparr>store := h\<rparr>)
         else (case create_col h (root_s s) next_col_header of
                 None \<Rightarrow> None
               | Some (ok, h') \<Rightarrow>
                   if \<not> ok then Some (False, s1\<lparr>store := h'\<rparr>)
                   else link_columns matrix js (s1\<lparr>store := h'\<rparr>)))"

definition init_build :: "solver \<Rightarrow> (bool \<times> solver) option" where
  "init_build s =
     (let (matrix, s1) = init_cells s
      in link_columns matrix [0..<nat (MAX_COLS_s s)] s1)"

text \<open>
  \<open>init\<close>. \<open>pow (grid_size, 2)\<close> is the exact square for every size whose square is an
  \<open>int\<close>; the sizes are unbounded integers here.
\<close>

definition init :: "solver \<Rightarrow> int \<Rightarrow> (bool \<times> solver) option" where
  "init s0 grid_size =
     (let s = s0\<lparr>GRID_SIZE_s := grid_size,
                 ROW_OFFSET_s := 0,
                 COL_OFFSET_s := grid_size * grid_size,
                 CELL_OFFSET_s := grid_size * grid_size * 2,
                 BOX_OFFSET_s := grid_size * grid_size * 3,
                 MAX_COLS_s := grid_size * grid_size * 4,
                 MAX_ROWS_s := grid_size * grid_size * grid_size\<rparr>
      in if grid_size = 9
         then init_build (s\<lparr>COL_BOX_DIV_s := 3, ROW_BOX_DIV_s := 3\<rparr>)
         else if grid_size = 10
         then init_build (s\<lparr>COL_BOX_DIV_s := 2, ROW_BOX_DIV_s := 5\<rparr>)
         else if grid_size = 12
         then init_build (s\<lparr>COL_BOX_DIV_s := 4, ROW_BOX_DIV_s := 3\<rparr>)
         else if grid_size = 16
         then init_build (s\<lparr>COL_BOX_DIV_s := 4, ROW_BOX_DIV_s := 4\<rparr>)
         else Some (False, s))"

section \<open>\<open>cover\<close> and \<open>uncover\<close>\<close>

text \<open>
  The four pointer assignments. Each dereferences its node and one neighbour; a \<open>NULL\<close>
  among them is undefined behaviour in the source and \<open>None\<close> here. The second statement
  of each pair reads the store the first one wrote.
\<close>

definition unlink_lr :: "store \<Rightarrow> ptr \<Rightarrow> store option" where
  "unlink_lr h col_node =
     (if col_node = 0 \<or> right_n (h col_node) = 0 then None
      else let h1 = set_left h (right_n (h col_node)) (left_n (h col_node))
           in if left_n (h1 col_node) = 0 then None
              else Some (set_right h1 (left_n (h1 col_node)) (right_n (h1 col_node))))"

definition relink_lr :: "store \<Rightarrow> ptr \<Rightarrow> store option" where
  "relink_lr h col_node =
     (if col_node = 0 \<or> right_n (h col_node) = 0 then None
      else let h1 = set_left h (right_n (h col_node)) col_node
           in if left_n (h1 col_node) = 0 then None
              else Some (set_right h1 (left_n (h1 col_node)) col_node))"

definition unlink_tb :: "store \<Rightarrow> ptr \<Rightarrow> store option" where
  "unlink_tb h n =
     (if n = 0 \<or> top_n (h n) = 0 then None
      else let h1 = set_bottom h (top_n (h n)) (bottom_n (h n))
           in if bottom_n (h1 n) = 0 then None
              else Some (set_top h1 (bottom_n (h1 n)) (top_n (h1 n))))"

definition relink_tb :: "store \<Rightarrow> ptr \<Rightarrow> store option" where
  "relink_tb h n =
     (if n = 0 \<or> top_n (h n) = 0 then None
      else let h1 = set_bottom h (top_n (h n)) n
           in if bottom_n (h1 n) = 0 then None
              else Some (set_top h1 (bottom_n (h1 n)) n))"

text \<open>The inner and the outer \<open>for\<close> loop of \<open>cover\<close>, then \<open>cover\<close> itself.\<close>

partial_function (option) cover_row :: "store \<Rightarrow> ptr \<Rightarrow> ptr \<Rightarrow> store option" where
  "cover_row h row_node right_node =
     (if right_node = row_node then Some h
      else do {
        h' \<leftarrow> unlink_tb h right_node;
        cover_row h' row_node (right_n (h' right_node))
      })"

declare cover_row.simps [code]

partial_function (option) cover_rows :: "store \<Rightarrow> ptr \<Rightarrow> ptr \<Rightarrow> store option" where
  "cover_rows h col_node row_node =
     (if row_node = col_node then Some h
      else if row_node = 0 then None
      else do {
        h' \<leftarrow> cover_row h row_node (right_n (h row_node));
        cover_rows h' col_node (bottom_n (h' row_node))
      })"

declare cover_rows.simps [code]

definition cover :: "store \<Rightarrow> ptr \<Rightarrow> store option" where
  "cover h node =
     (if node = 0 then None
      else do {
        h1 \<leftarrow> unlink_lr h (col_header_n (h node));
        cover_rows h1 (col_header_n (h node)) (bottom_n (h1 (col_header_n (h node))))
      })"

text \<open>The loops of \<open>uncover\<close> run upwards and leftwards; the header is linked in last.\<close>

partial_function (option) uncover_row :: "store \<Rightarrow> ptr \<Rightarrow> ptr \<Rightarrow> store option" where
  "uncover_row h row_node left_node =
     (if left_node = row_node then Some h
      else do {
        h' \<leftarrow> relink_tb h left_node;
        uncover_row h' row_node (left_n (h' left_node))
      })"

declare uncover_row.simps [code]

partial_function (option) uncover_rows :: "store \<Rightarrow> ptr \<Rightarrow> ptr \<Rightarrow> store option" where
  "uncover_rows h col_node row_node =
     (if row_node = col_node then Some h
      else if row_node = 0 then None
      else do {
        h' \<leftarrow> uncover_row h row_node (left_n (h row_node));
        uncover_rows h' col_node (top_n (h' row_node))
      })"

declare uncover_rows.simps [code]

definition uncover :: "store \<Rightarrow> ptr \<Rightarrow> store option" where
  "uncover h node =
     (if node = 0 then None
      else if col_header_n (h node) = 0 then None
      else do {
        h1 \<leftarrow> uncover_rows h (col_header_n (h node)) (top_n (h (col_header_n (h node))));
        relink_lr h1 (col_header_n (h node))
      })"

section \<open>\<open>empty\<close>, \<open>find\<close> and \<open>pick_next_col\<close>\<close>

definition empty_ec :: "solver \<Rightarrow> bool option" where
  "empty_ec s = (if root_s s = 0 then None else Some (right_n (store s (root_s s)) = root_s s))"

text \<open>
  \<open>find\<close>: the inner \<open>while\<close> over one column, the outer one over the headers. The result
  \<open>0\<close> is the \<open>NULL\<close> of the source; the node looked for is passed by value.
\<close>

partial_function (option) find_down :: "store \<Rightarrow> node \<Rightarrow> ptr \<Rightarrow> ptr \<Rightarrow> ptr option" where
  "find_down h node right_node bottom_node =
     (if bottom_node = right_node then Some 0
      else if bottom_node = 0 then None
      else if row_n (h bottom_node) = row_n node \<and> col_n (h bottom_node) = col_n node
              \<and> value_n (h bottom_node) = value_n node
      then Some bottom_node
      else find_down h node right_node (bottom_n (h bottom_node)))"

declare find_down.simps [code]

partial_function (option) find_right :: "store \<Rightarrow> ptr \<Rightarrow> node \<Rightarrow> ptr \<Rightarrow> ptr option" where
  "find_right h root node right_node =
     (if right_node = root then Some 0
      else if right_node = 0 then None
      else do {
        found \<leftarrow> find_down h node right_node (bottom_n (h right_node));
        if found \<noteq> 0 then Some found
        else find_right h root node (right_n (h right_node))
      })"

declare find_right.simps [code]

definition find_ec :: "store \<Rightarrow> ptr \<Rightarrow> node \<Rightarrow> ptr option" where
  "find_ec h root node = (if root = 0 then None else find_right h root node (right_n (h root)))"

text \<open>\<open>pick_next_col\<close>: the counting loop, the loop over the headers, and the function.\<close>

partial_function (option) count_rows :: "store \<Rightarrow> ptr \<Rightarrow> ptr \<Rightarrow> int \<Rightarrow> int option" where
  "count_rows h next_col next tmp_count =
     (if next = next_col then Some tmp_count
      else if next = 0 then None
      else count_rows h next_col (bottom_n (h next)) (tmp_count + 1))"

declare count_rows.simps [code]

partial_function (option) pick_loop ::
  "store \<Rightarrow> ptr \<Rightarrow> ptr \<Rightarrow> ptr \<Rightarrow> int \<Rightarrow> (ptr \<times> int) option" where
  "pick_loop h root next_col curr_best best =
     (if next_col = root then Some (curr_best, best)
      else if next_col = 0 then None
      else do {
        tmp_count \<leftarrow> count_rows h next_col (bottom_n (h next_col)) 0;
        if tmp_count < best \<or> best = - 1
        then pick_loop h root (right_n (h next_col)) next_col tmp_count
        else pick_loop h root (right_n (h next_col)) curr_best best
      })"

declare pick_loop.simps [code]

definition pick_next_col :: "store \<Rightarrow> ptr \<Rightarrow> (ptr \<times> int) option" where
  "pick_next_col h root =
     (if root = 0 \<or> right_n (h root) = 0 then None
      else pick_loop h root (right_n (h root)) (right_n (h root)) (- 1))"

section \<open>The recursive search \<open>solve ()\<close>\<close>

text \<open>
  The two loops that cover and uncover the columns of the other nodes of a row. Both run
  to the right, as in the source.
\<close>

partial_function (option) cover_others :: "store \<Rightarrow> ptr \<Rightarrow> ptr \<Rightarrow> store option" where
  "cover_others h next_row_in_col row_node =
     (if row_node = next_row_in_col then Some h
      else if row_node = 0 then None
      else do {
        h' \<leftarrow> cover h (col_header_n (h row_node));
        cover_others h' next_row_in_col (right_n (h' row_node))
      })"

declare cover_others.simps [code]

partial_function (option) uncover_others :: "store \<Rightarrow> ptr \<Rightarrow> ptr \<Rightarrow> store option" where
  "uncover_others h next_row_in_col row_node =
     (if row_node = next_row_in_col then Some h
      else if row_node = 0 then None
      else do {
        h' \<leftarrow> uncover h (col_header_n (h row_node));
        uncover_others h' next_row_in_col (right_n (h' row_node))
      })"

declare uncover_others.simps [code]

text \<open>
  The \<open>while\<close> loop of \<open>solve ()\<close> over the rows of the chosen column. Its recursive call
  of \<open>solve ()\<close> is the parameter \<open>rec\<close>.
\<close>

partial_function (option) solve_loop ::
  "(solver \<Rightarrow> (bool \<times> solver) option) \<Rightarrow> ptr \<Rightarrow> ptr \<Rightarrow> solver \<Rightarrow> solver option" where
  "solve_loop rec next_col next_row_in_col s =
     (if next_row_in_col \<noteq> next_col \<and> \<not> solved_s s
      then (if next_row_in_col = 0 then None
            else do {
              h1 \<leftarrow> cover_others (store s) next_row_in_col
                      (right_n (store s next_row_in_col));
              (b, s2) \<leftarrow> rec (s\<lparr>store := h1,
                                running_sol_s := next_row_in_col # running_sol_s s\<rparr>);
              s3 \<leftarrow> (if \<not> b
                     then (case running_sol_s s2 of
                             [] \<Rightarrow> None
                           | popped # rest \<Rightarrow> Some (s2\<lparr>solved_s := b, running_sol_s := rest\<rparr>))
                     else Some (s2\<lparr>solved_s := b\<rparr>));
              h4 \<leftarrow> uncover_others (store s3) next_row_in_col
                      (right_n (store s3 next_row_in_col));
              solve_loop rec next_col (bottom_n (h4 next_row_in_col)) (s3\<lparr>store := h4\<rparr>)
            })
      else Some s)"

declare solve_loop.simps [code]

definition solve_body ::
  "(solver \<Rightarrow> (bool \<times> solver) option) \<Rightarrow> solver \<Rightarrow> (bool \<times> solver) option" where
  "solve_body rec s =
     do {
       e \<leftarrow> empty_ec s;
       if e then Some (True, s)
       else do {
         (next_col, cols_count) \<leftarrow> pick_next_col (store s) (root_s s);
         if cols_count < 1 then Some (False, s)
         else if next_col = 0 then None
         else do {
           h1 \<leftarrow> cover (store s) next_col;
           s2 \<leftarrow> solve_loop rec next_col (bottom_n (store s next_col))
                   (s\<lparr>store := h1,
                      total_competition_s := total_competition_s s + cols_count\<rparr>);
           h3 \<leftarrow> uncover (store s2) next_col;
           Some (solved_s s2, s2\<lparr>store := h3\<rparr>)
         }
       }
     }"

text \<open>
  \<open>solve ()\<close> with a bound on the depth of the recursion: \<open>solve d\<close> may nest \<open>d\<close> further
  calls below itself, and is \<open>None\<close> when the source would go deeper (or does not return).
\<close>

primrec solve :: "nat \<Rightarrow> solver \<Rightarrow> (bool \<times> solver) option" where
  "solve 0 s = solve_body (\<lambda>s'. None) s"
| "solve (Suc d) s = solve_body (solve d) s"

section \<open>The public \<open>solve (input_grid)\<close>\<close>

text \<open>
  The double loop over the cells, in row-major order, with its two early returns: \<open>Inl\<close>
  is a return from \<open>solve\<close>, \<open>Inr\<close> carries the solver and the stack \<open>puzzle_nodes\<close> on.
  Reading \<open>input_grid[i][j]\<close> outside the grid is undefined in the source.
\<close>

fun insert_clues ::
  "grid \<Rightarrow> (nat \<times> nat) list \<Rightarrow> solver \<Rightarrow> ptr list \<Rightarrow> (solver + solver \<times> ptr list) option" where
  "insert_clues input_grid [] s puzzle_nodes = Some (Inr (s, puzzle_nodes))"
| "insert_clues input_grid ((i, j) # cells) s puzzle_nodes =
     (if \<not> (i < length input_grid \<and> j < length (input_grid ! i)) then None
      else let val = input_grid ! i ! j
           in if val > GRID_SIZE_s s \<or> val < 0
              then Some (Inl (s\<lparr>printed := printed s @ [Invalid_puzzle]\<rparr>))
              else if val \<noteq> 0
              then do {
                insert_next \<leftarrow> find_ec (store s) (root_s s) (Node3 (int i) (int j) (val - 1));
                if insert_next = 0
                then Some (Inl (s\<lparr>printed := printed s
                                   @ [Repeated_or_invalid val (int i + 1) (int j + 1)]\<rparr>))
                else do {
                  h1 \<leftarrow> cover (store s) (col_header_n (store s insert_next));
                  h2 \<leftarrow> cover_others h1 insert_next (right_n (h1 insert_next));
                  insert_clues input_grid cells
                    (s\<lparr>store := h2, running_sol_s := insert_next # running_sol_s s\<rparr>)
                    (insert_next # puzzle_nodes)
                }
              }
              else insert_clues input_grid cells s puzzle_nodes)"

text \<open>The loop that undoes the covers of the clues, last clue first.\<close>

fun restore_clues :: "ptr list \<Rightarrow> store \<Rightarrow> store option" where
  "restore_clues [] h = Some h"
| "restore_clues (node # puzzle_nodes) h =
     (if node = 0 then None
      else do {
        h1 \<leftarrow> uncover_others h node (right_n (h node));
        h2 \<leftarrow> uncover h1 (col_header_n (h node));
        restore_clues puzzle_nodes h2
      })"

definition cells :: "nat \<Rightarrow> (nat \<times> nat) list" where
  "cells G = List.product [0..<G] [0..<G]"

definition solve_grid :: "nat \<Rightarrow> solver \<Rightarrow> grid \<Rightarrow> solver option" where
  "solve_grid d s0 input_grid =
     (let s = s0\<lparr>solved_s := False, total_competition_s := 0, running_sol_s := []\<rparr>
      in do {
        r \<leftarrow> insert_clues input_grid (cells (nat (GRID_SIZE_s s))) s [];
        case r of
          Inl s1 \<Rightarrow> Some s1
        | Inr (s1, puzzle_nodes) \<Rightarrow> do {
            (b, s2) \<leftarrow> solve d s1;
            h \<leftarrow> restore_clues puzzle_nodes (store s2);
            Some ((if b then s2 else s2\<lparr>printed := printed s2 @ [Not_solvable]\<rparr>)\<lparr>store := h\<rparr>)
          }
      })"

text \<open>A stack of two nodes over a 2 by 2 grid: the two named cells are written.\<close>

definition two_node_store :: store where
  "two_node_store = (\<lambda>p. Node0)(5 := Node3 0 1 1, 6 := Node3 1 0 0)"

definition two_node_solver :: solver where
  "two_node_solver =
     \<lparr>store = two_node_store, fresh = 7, root_s = 1, running_sol_s = [5, 6], solved_s = True,
      total_competition_s = 0, GRID_SIZE_s = 2, ROW_OFFSET_s = 0, COL_OFFSET_s = 4,
      CELL_OFFSET_s = 8, BOX_OFFSET_s = 12, MAX_COLS_s = 16, MAX_ROWS_s = 8,
      COL_BOX_DIV_s = 1, ROW_BOX_DIV_s = 2, printed = []\<rparr>"

section \<open>Doubly linked paths\<close>

text \<open>
  \<open>dpath nx pv a xs b\<close>: following \<open>nx\<close> from \<open>a\<close> passes through \<open>xs\<close> and reaches \<open>b\<close>, and
  \<open>pv\<close> leads back the same way.
\<close>

primrec dpath :: "(ptr \<Rightarrow> ptr) \<Rightarrow> (ptr \<Rightarrow> ptr) \<Rightarrow> ptr \<Rightarrow> ptr list \<Rightarrow> ptr \<Rightarrow> bool" where
  "dpath nx pv a [] b = (nx a = b \<and> pv b = a)"
| "dpath nx pv a (x # xs) b = (nx a = x \<and> pv x = a \<and> dpath nx pv x xs b)"

text \<open>The last node of \<open>a # xs\<close> and the first node of \<open>ys @ [b]\<close>.\<close>

fun lastp :: "ptr \<Rightarrow> ptr list \<Rightarrow> ptr" where
  "lastp a [] = a"
| "lastp a (x # xs) = lastp x xs"

fun firstp :: "ptr list \<Rightarrow> ptr \<Rightarrow> ptr" where
  "firstp [] b = b"
| "firstp (y # ys) b = y"

definition fB :: "store \<Rightarrow> ptr \<Rightarrow> ptr" where "fB h = (\<lambda>p. bottom_n (h p))"

definition fT :: "store \<Rightarrow> ptr \<Rightarrow> ptr" where "fT h = (\<lambda>p. top_n (h p))"

definition fR :: "store \<Rightarrow> ptr \<Rightarrow> ptr" where "fR h = (\<lambda>p. right_n (h p))"

definition fL :: "store \<Rightarrow> ptr \<Rightarrow> ptr" where "fL h = (\<lambda>p. left_n (h p))"

abbreviation vpath :: "store \<Rightarrow> ptr \<Rightarrow> ptr list \<Rightarrow> ptr \<Rightarrow> bool" where
  "vpath h \<equiv> dpath (fB h) (fT h)"

abbreviation hpath :: "store \<Rightarrow> ptr \<Rightarrow> ptr list \<Rightarrow> ptr \<Rightarrow> bool" where
  "hpath h \<equiv> dpath (fR h) (fL h)"

section \<open>The geometry of the matrix\<close>

text \<open>
  A geometry is a grid size \<open>N\<close> with the two box divisors. Placement row \<open>r\<close> stands
  for the triple \<open>(ri, rj, rk)\<close>; it has one node in each of the four families of columns,
  at the column \<open>colidx g f r\<close>. Addresses follow the order of allocation: the root is
  \<open>1\<close>, the node of row \<open>r\<close> in family \<open>f\<close> is \<open>nd r f\<close>, the header of column \<open>c\<close> is
  \<open>hdr g c\<close>.
\<close>

record geom =
  gN :: nat
  gR :: nat
  gC :: nat

definition NR :: "geom \<Rightarrow> nat" where "NR g = gN g * gN g * gN g"

definition NC :: "geom \<Rightarrow> nat" where "NC g = gN g * gN g * 4"

definition ri :: "geom \<Rightarrow> nat \<Rightarrow> nat" where "ri g r = r div (gN g * gN g)"

definition rj :: "geom \<Rightarrow> nat \<Rightarrow> nat" where "rj g r = r mod (gN g * gN g) div gN g"

definition rk :: "geom \<Rightarrow> nat \<Rightarrow> nat" where "rk g r = r mod gN g"

definition box_of :: "geom \<Rightarrow> nat \<Rightarrow> nat \<Rightarrow> nat" where
  "box_of g i j = i div gR g + j div gC g * gC g"

definition colidx :: "geom \<Rightarrow> nat \<Rightarrow> nat \<Rightarrow> nat" where
  "colidx g f r =
     (if f = 0 then ri g r * gN g + rk g r
      else if f = 1 then gN g * gN g + (rj g r * gN g + rk g r)
      else if f = 2 then gN g * gN g * 2 + (ri g r * gN g + rj g r)
      else gN g * gN g * 3 + (box_of g (ri g r) (rj g r) * gN g + rk g r))"

definition nd :: "nat \<Rightarrow> nat \<Rightarrow> ptr" where "nd r f = 2 + 4 * r + f"

definition hdr :: "geom \<Rightarrow> nat \<Rightarrow> ptr" where "hdr g c = 2 + 4 * NR g + c"

definition fields_ok :: "geom \<Rightarrow> solver \<Rightarrow> bool" where
  "fields_ok g s \<longleftrightarrow>
     GRID_SIZE_s s = int (gN g) \<and> ROW_OFFSET_s s = 0
   \<and> COL_OFFSET_s s = int (gN g * gN g) \<and> CELL_OFFSET_s s = int (gN g * gN g * 2)
   \<and> BOX_OFFSET_s s = int (gN g * gN g * 3) \<and> MAX_COLS_s s = int (NC g)
   \<and> MAX_ROWS_s s = int (NR g) \<and> COL_BOX_DIV_s s = int (gC g)
   \<and> ROW_BOX_DIV_s s = int (gR g) \<and> root_s s = 1"

definition cell_node :: "geom \<Rightarrow> nat \<Rightarrow> nat \<Rightarrow> node" where
  "cell_node g r f =
     (Node3 (int (ri g r)) (int (rj g r)) (int (rk g r)))
       \<lparr>left_n := nd r ((f + 3) mod 4), right_n := nd r ((f + 1) mod 4)\<rparr>"

definition storeA :: "geom \<Rightarrow> store \<Rightarrow> nat \<Rightarrow> store" where
  "storeA g h0 n =
     (\<lambda>p. if 2 \<le> p \<and> p < 2 + 4 * n then cell_node g ((p - 2) div 4) ((p - 2) mod 4) else h0 p)"

definition matrixA :: "geom \<Rightarrow> nat \<Rightarrow> matrix" where
  "matrixA g n =
     (\<lambda>(r, c). if r < n
        then (if c = colidx g 3 r then nd r 3
              else if c = colidx g 2 r then nd r 2
              else if c = colidx g 1 r then nd r 1
              else if c = colidx g 0 r then nd r 0
              else 0)
        else 0)"

section \<open>Facts of the geometry\<close>

definition wf_geom :: "geom \<Rightarrow> bool" where
  "wf_geom g \<longleftrightarrow> gN g = gR g * gC g \<and> 0 < gR g \<and> 0 < gC g"

section \<open>The columns as lists of rows\<close>

definition fam :: "geom \<Rightarrow> nat \<Rightarrow> nat" where "fam g c = c div (gN g * gN g)"

definition rows_of :: "geom \<Rightarrow> nat \<Rightarrow> nat list" where
  "rows_of g c = filter (\<lambda>r. colidx g (fam g c) r = c) [0..<NR g]"

definition col_nodes :: "geom \<Rightarrow> nat \<Rightarrow> ptr list" where
  "col_nodes g c = map (\<lambda>r. nd r (fam g c)) (rows_of g c)"

text \<open>The loop that links one column, on any matrix and any header.\<close>

definition linked_rows :: "matrix \<Rightarrow> nat \<Rightarrow> nat \<Rightarrow> ptr list" where
  "linked_rows m j n = map (\<lambda>i. m (i, j)) (filter (\<lambda>i. m (i, j) \<noteq> 0) [0..<n])"

definition link_frame :: "store \<Rightarrow> store \<Rightarrow> ptr \<Rightarrow> ptr list \<Rightarrow> bool" where
  "link_frame h h' hp ns \<longleftrightarrow>
     (\<forall>p. p \<notin> set (hp # ns) \<longrightarrow> h' p = h p)
   \<and> (\<forall>p. value_n (h' p) = value_n (h p) \<and> row_n (h' p) = row_n (h p)
          \<and> col_n (h' p) = col_n (h p) \<and> header_n (h' p) = header_n (h p)
          \<and> left_n (h' p) = left_n (h p) \<and> right_n (h' p) = right_n (h p))
   \<and> col_header_n (h' hp) = col_header_n (h hp)
   \<and> (\<forall>p\<in>set ns. col_header_n (h' p) = hp)"

section \<open>The shape of the store\<close>

text \<open>
  The part of the store that \<open>cover\<close> and \<open>uncover\<close> never change: the fields of the
  placement nodes other than \<open>top_\<close> and \<open>bottom_\<close>, and the marks of the headers.
\<close>

definition row_fields :: "geom \<Rightarrow> store \<Rightarrow> bool" where
  "row_fields g h \<longleftrightarrow>
     (\<forall>r<NR g. \<forall>f<4.
        row_n (h (nd r f)) = int (ri g r) \<and> col_n (h (nd r f)) = int (rj g r)
      \<and> value_n (h (nd r f)) = int (rk g r) \<and> \<not> header_n (h (nd r f))
      \<and> left_n (h (nd r f)) = nd r ((f + 3) mod 4)
      \<and> right_n (h (nd r f)) = nd r ((f + 1) mod 4))"

definition cols_linked :: "geom \<Rightarrow> store \<Rightarrow> nat \<Rightarrow> bool" where
  "cols_linked g h J \<longleftrightarrow>
     hpath h 1 (map (hdr g) [0..<J]) 1
   \<and> (\<forall>c<J. vpath h (hdr g c) (col_nodes g c) (hdr g c))
   \<and> (\<forall>c<J. header_n (h (hdr g c)) \<and> col_header_n (h (hdr g c)) = hdr g c)
   \<and> row_fields g h
   \<and> (\<forall>r<NR g. \<forall>f<4. colidx g f r < J \<longrightarrow> col_header_n (h (nd r f)) = hdr g (colidx g f r))
   \<and> header_n (h 1) \<and> top_n (h 1) = 1 \<and> bottom_n (h 1) = 1"

text \<open>A solver as the constructor leaves it, up to the sizes.\<close>

definition fresh_solver :: "solver \<Rightarrow> bool" where
  "fresh_solver s \<longleftrightarrow>
     fresh s = 2 \<and> root_s s = 1 \<and> header_n (store s 1) \<and> left_n (store s 1) = 1
   \<and> right_n (store s 1) = 1 \<and> top_n (store s 1) = 1 \<and> bottom_n (store s 1) = 1"

section \<open>The invariant of the dancing links\<close>

text \<open>
  \<open>static_ok\<close>: what no operation after \<open>init\<close> changes. \<open>rep g h C Q\<close>: the headers of
  the columns outside \<open>C\<close> form the ring of the root, in the order of their indices, and
  the vertical ring of every column \<open>c\<close> holds the nodes of its rows outside \<open>Q c\<close>, in
  the order of the rows. The matrix that \<open>init\<close> builds has no column covered and no
  row hidden.
\<close>

definition static_ok :: "geom \<Rightarrow> store \<Rightarrow> bool" where
  "static_ok g h \<longleftrightarrow>
     row_fields g h
   \<and> (\<forall>r<NR g. \<forall>f<4. col_header_n (h (nd r f)) = hdr g (colidx g f r))
   \<and> (\<forall>c<NC g. header_n (h (hdr g c)) \<and> col_header_n (h (hdr g c)) = hdr g c)
   \<and> header_n (h 1) \<and> top_n (h 1) = 1 \<and> bottom_n (h 1) = 1"

definition live_nodes :: "geom \<Rightarrow> (nat \<Rightarrow> nat set) \<Rightarrow> nat \<Rightarrow> ptr list" where
  "live_nodes g Q c = map (\<lambda>r. nd r (fam g c)) (filter (\<lambda>r. r \<notin> Q c) (rows_of g c))"

definition live_cols :: "geom \<Rightarrow> nat set \<Rightarrow> ptr list" where
  "live_cols g C = map (hdr g) (filter (\<lambda>c. c \<notin> C) [0..<NC g])"

definition rep :: "geom \<Rightarrow> store \<Rightarrow> nat set \<Rightarrow> (nat \<Rightarrow> nat set) \<Rightarrow> bool" where
  "rep g h C Q \<longleftrightarrow>
     static_ok g h
   \<and> hpath h 1 (live_cols g C) 1
   \<and> (\<forall>c<NC g. vpath h (hdr g c) (live_nodes g Q c) (hdr g c))"

definition pristine :: "geom \<Rightarrow> store \<Rightarrow> bool" where
  "pristine g h \<longleftrightarrow> rep g h {} (\<lambda>c. {})"

definition geom_of :: "solver \<Rightarrow> geom" where
  "geom_of s = \<lparr>gN = nat (GRID_SIZE_s s), gR = nat (ROW_BOX_DIV_s s), gC = nat (COL_BOX_DIV_s s)\<rparr>"

definition box_divs :: "int \<Rightarrow> int \<times> int" where
  "box_divs grid_size =
     (if grid_size = 9 then (3, 3) else if grid_size = 10 then (2, 5)
      else if grid_size = 12 then (4, 3) else (4, 4))"

definition sized :: "solver \<Rightarrow> int \<Rightarrow> int \<Rightarrow> int \<Rightarrow> solver" where
  "sized s n cd rd =
     s\<lparr>GRID_SIZE_s := n, ROW_OFFSET_s := 0, COL_OFFSET_s := n * n,
       CELL_OFFSET_s := n * n * 2, BOX_OFFSET_s := n * n * 3, MAX_COLS_s := n * n * 4,
       MAX_ROWS_s := n * n * n, COL_BOX_DIV_s := cd, ROW_BOX_DIV_s := rd\<rparr>"

text \<open>The solvers that \<open>init\<close> accepts, and what it returns for them.\<close>

definition supported :: "int \<Rightarrow> bool" where
  "supported grid_size \<longleftrightarrow> grid_size = 9 \<or> grid_size = 10 \<or> grid_size = 12 \<or> grid_size = 16"

section \<open>Unlinking and relinking as total functions\<close>

text \<open>
  What the four pointer assignments do when no \<open>NULL\<close> is met: \<open>remv\<close> takes a node out
  of its vertical ring and \<open>insv\<close> puts it back, \<open>remh\<close> and \<open>insh\<close> do the same for a
  header in the horizontal ring.
\<close>

definition remv :: "store \<Rightarrow> ptr \<Rightarrow> store" where
  "remv h n = set_top (set_bottom h (top_n (h n)) (bottom_n (h n))) (bottom_n (h n)) (top_n (h n))"

definition insv :: "store \<Rightarrow> ptr \<Rightarrow> store" where
  "insv h n = set_top (set_bottom h (top_n (h n)) n) (bottom_n (h n)) n"

definition remh :: "store \<Rightarrow> ptr \<Rightarrow> store" where
  "remh h c = set_right (set_left h (right_n (h c)) (left_n (h c))) (left_n (h c)) (right_n (h c))"

definition insh :: "store \<Rightarrow> ptr \<Rightarrow> store" where
  "insh h c = set_right (set_left h (right_n (h c)) c) (left_n (h c)) c"

text \<open>A node sits in its ring: its two neighbours point back at it and are not itself.\<close>

definition good :: "store \<Rightarrow> ptr \<Rightarrow> bool" where
  "good h n \<longleftrightarrow>
     bottom_n (h (top_n (h n))) = n \<and> top_n (h (bottom_n (h n))) = n
   \<and> top_n (h n) \<noteq> n \<and> bottom_n (h n) \<noteq> n
   \<and> n \<noteq> 0 \<and> top_n (h n) \<noteq> 0 \<and> bottom_n (h n) \<noteq> 0"

definition goodh :: "store \<Rightarrow> ptr \<Rightarrow> bool" where
  "goodh h c \<longleftrightarrow>
     right_n (h (left_n (h c))) = c \<and> left_n (h (right_n (h c))) = c
   \<and> left_n (h c) \<noteq> c \<and> right_n (h c) \<noteq> c
   \<and> c \<noteq> 0 \<and> left_n (h c) \<noteq> 0 \<and> right_n (h c) \<noteq> 0"

fun goods :: "store \<Rightarrow> ptr list \<Rightarrow> bool" where
  "goods h [] = True"
| "goods h (n # ns) = (good h n \<and> goods (remv h n) ns)"

section \<open>One step of \<open>cover\<close> on the invariant\<close>

definition colmem :: "geom \<Rightarrow> nat \<Rightarrow> ptr set" where
  "colmem g c = insert (hdr g c) (set (col_nodes g c))"

section \<open>Hiding a row, covering a column\<close>

text \<open>
  \<open>hide h r f0\<close> is the store after the inner loop of \<open>cover\<close> has run on the row \<open>r\<close>,
  entered at its node of family \<open>f0\<close>; \<open>hideQ\<close> is the effect on the abstract state.
\<close>

definition hide :: "store \<Rightarrow> nat \<Rightarrow> nat \<Rightarrow> store" where
  "hide h r f0 =
     remv (remv (remv h (nd r ((f0 + 1) mod 4))) (nd r ((f0 + 2) mod 4))) (nd r ((f0 + 3) mod 4))"

definition hideQ :: "geom \<Rightarrow> (nat \<Rightarrow> nat set) \<Rightarrow> nat \<Rightarrow> nat \<Rightarrow> nat \<Rightarrow> nat set" where
  "hideQ g Q r f0 = (\<lambda>c. if \<exists>f<4. f \<noteq> f0 \<and> colidx g f r = c then insert r (Q c) else Q c)"

definition coverQ :: "geom \<Rightarrow> (nat \<Rightarrow> nat set) \<Rightarrow> nat \<Rightarrow> nat \<Rightarrow> nat set" where
  "coverQ g Q c =
     fold (\<lambda>r Q. hideQ g Q r (fam g c)) (filter (\<lambda>r. r \<notin> Q c) (rows_of g c)) Q"

text \<open>
  \<open>cover\<close> on a consistent state, and \<open>uncover\<close> right after it. The column must not be
  covered, and its rows that are still present must be present in their other columns.
\<close>

definition clean :: "geom \<Rightarrow> (nat \<Rightarrow> nat set) \<Rightarrow> nat \<Rightarrow> bool" where
  "clean g Q c \<longleftrightarrow>
     (\<forall>r\<in>set (rows_of g c). r \<notin> Q c \<longrightarrow> (\<forall>f<4. f \<noteq> fam g c \<longrightarrow> r \<notin> Q (colidx g f r)))"

section \<open>States reached by covering columns one after the other\<close>

text \<open>
  \<open>CS\<close> lists the covered columns, oldest first. A row is hidden from a column when it
  has a node in a column that was covered while the first one was not.
\<close>

definition Qof :: "geom \<Rightarrow> nat list \<Rightarrow> nat \<Rightarrow> nat set" where
  "Qof g CS c =
     {r \<in> set (rows_of g c). \<exists>c'\<in>set (takeWhile (\<lambda>x. x \<noteq> c) CS). r \<in> set (rows_of g c')}"

definition covered :: "geom \<Rightarrow> store \<Rightarrow> nat list \<Rightarrow> bool" where
  "covered g h CS \<longleftrightarrow>
     distinct CS \<and> (\<forall>c\<in>set CS. c < NC g) \<and> rep g h (set CS) (Qof g CS)"

definition cols3 :: "geom \<Rightarrow> nat \<Rightarrow> nat \<Rightarrow> nat list" where
  "cols3 g r f0 =
     [colidx g ((f0 + 1) mod 4) r, colidx g ((f0 + 2) mod 4) r, colidx g ((f0 + 3) mod 4) r]"

section \<open>\<open>find\<close> on a consistent state\<close>

definition matches :: "store \<Rightarrow> node \<Rightarrow> ptr \<Rightarrow> bool" where
  "matches h node p \<longleftrightarrow>
     row_n (h p) = row_n node \<and> col_n (h p) = col_n node \<and> value_n (h p) = value_n node"

fun firstm :: "(ptr \<Rightarrow> bool) \<Rightarrow> ptr list \<Rightarrow> ptr" where
  "firstm P [] = 0"
| "firstm P (x # xs) = (if P x then x else firstm P xs)"

fun firstv :: "(ptr \<Rightarrow> ptr) \<Rightarrow> ptr list \<Rightarrow> ptr" where
  "firstv F [] = 0"
| "firstv F (x # xs) = (if F x \<noteq> 0 then F x else firstv F xs)"

section \<open>The clues of a grid\<close>

text \<open>
  The row of the matrix for the value \<open>k + 1\<close> in the cell \<open>(i, j)\<close>, the four columns of
  a row, and the rows and columns of the clues among a list of cells.
\<close>

definition rowof :: "geom \<Rightarrow> nat \<Rightarrow> nat \<Rightarrow> nat \<Rightarrow> nat" where
  "rowof g i j k = i * (gN g * gN g) + j * gN g + k"

definition cols4 :: "geom \<Rightarrow> nat \<Rightarrow> nat list" where
  "cols4 g r = [colidx g 0 r, colidx g 1 r, colidx g 2 r, colidx g 3 r]"

definition gval :: "grid \<Rightarrow> nat \<times> nat \<Rightarrow> int" where
  "gval G a = G ! fst a ! snd a"

definition clue_row :: "geom \<Rightarrow> grid \<Rightarrow> nat \<times> nat \<Rightarrow> nat" where
  "clue_row g G a = rowof g (fst a) (snd a) (nat (gval G a - 1))"

definition placed :: "geom \<Rightarrow> grid \<Rightarrow> (nat \<times> nat) list \<Rightarrow> nat list" where
  "placed g G ps = map (clue_row g G) (filter (\<lambda>a. gval G a \<noteq> 0) ps)"

definition CSof :: "geom \<Rightarrow> grid \<Rightarrow> (nat \<times> nat) list \<Rightarrow> nat list" where
  "CSof g G ps = concat (map (cols4 g) (placed g G ps))"

text \<open>
  Two cells share a row, a column or a box; a clue is bad when it is out of range or
  repeats the value of a cell of \<open>ps\<close> in the same row, column or box.
\<close>

definition same_unit :: "geom \<Rightarrow> nat \<times> nat \<Rightarrow> nat \<times> nat \<Rightarrow> bool" where
  "same_unit g a b \<longleftrightarrow>
     fst a = fst b \<or> snd a = snd b
   \<or> (fst a div gR g = fst b div gR g \<and> snd a div gC g = snd b div gC g)"

definition bad_clue :: "geom \<Rightarrow> grid \<Rightarrow> (nat \<times> nat) list \<Rightarrow> nat \<times> nat \<Rightarrow> bool" where
  "bad_clue g G ps a \<longleftrightarrow>
     gval G a \<noteq> 0
   \<and> (gval G a > int (gN g) \<or> gval G a < 0
      \<or> (\<exists>b\<in>set ps. gval G b = gval G a \<and> same_unit g b a))"

fun scan ::
  "geom \<Rightarrow> grid \<Rightarrow> (nat \<times> nat) list \<Rightarrow> (nat \<times> nat) list
     \<Rightarrow> ((nat \<times> nat) list \<times> (nat \<times> nat)) option" where
  "scan g G ps [] = None"
| "scan g G ps (a # cs) = (if bad_clue g G ps a then Some (ps, a) else scan g G (ps @ [a]) cs)"

definition bad_msg :: "geom \<Rightarrow> grid \<Rightarrow> nat \<times> nat \<Rightarrow> message" where
  "bad_msg g G a =
     (if gval G a > int (gN g) \<or> gval G a < 0 then Invalid_puzzle
      else Repeated_or_invalid (gval G a) (int (fst a) + 1) (int (snd a) + 1))"

text \<open>
  The range of the values of the cells of \<open>ps\<close>: what the range check has let through.
\<close>

definition in_range :: "geom \<Rightarrow> grid \<Rightarrow> (nat \<times> nat) list \<Rightarrow> bool" where
  "in_range g G ps \<longleftrightarrow> (\<forall>b\<in>set ps. gval G b \<noteq> 0 \<longrightarrow> 0 < gval G b \<and> gval G b \<le> int (gN g))"

text \<open>
  A grid is invalid when a clue is out of range or two different cells of one row, column
  or box hold the same clue.
\<close>

definition invalid_grid :: "geom \<Rightarrow> grid \<Rightarrow> bool" where
  "invalid_grid g G \<longleftrightarrow>
     (\<exists>a\<in>set (cells (gN g)). gval G a \<noteq> 0
        \<and> (gval G a > int (gN g) \<or> gval G a < 0
           \<or> (\<exists>b\<in>set (cells (gN g)). b \<noteq> a \<and> gval G b = gval G a \<and> same_unit g b a)))"

definition before :: "nat \<Rightarrow> nat \<times> nat \<Rightarrow> (nat \<times> nat) list" where
  "before N a = takeWhile (\<lambda>b. b \<noteq> a) (cells N)"

text \<open>A grid of size 9 whose first row starts with two clues 5; every other cell is blank.\<close>

definition grid_repeat :: grid where
  "grid_repeat = (5 # 5 # replicate 7 0) # replicate 8 (replicate 9 0)"

section \<open>Pointer symmetry\<close>




section \<open>Properties of \<open>output\<close>\<close>

lemma put_cell_length:
  "put_cell g r c v = Some g' \<Longrightarrow> length g' = length g"
  by (auto simp: put_cell_def split: if_splits)

lemma put_cell_other:
  "put_cell g r c v = Some g' \<Longrightarrow> \<not> (r = int i \<and> c = int j) \<Longrightarrow> g' ! i ! j = g ! i ! j"
  by (auto simp: put_cell_def nth_list_update split: if_splits)

lemma output_loop_other:
  "output_loop h ns g = Some g' \<Longrightarrow>
   \<forall>n\<in>set ns. \<not> (row_n (h n) = int i \<and> col_n (h n) = int j) \<Longrightarrow>
   g' ! i ! j = g ! i ! j"
proof (induction ns arbitrary: g)
  case Nil
  then show ?case by simp
next
  case (Cons n ns)
  from Cons.prems(1) obtain g1 where
    g1: "put_cell g (row_n (h n)) (col_n (h n)) (value_n (h n) + 1) = Some g1"
    and rest: "output_loop h ns g1 = Some g'"
    by (auto split: if_splits option.splits)
  from Cons.prems(2) have here: "\<not> (row_n (h n) = int i \<and> col_n (h n) = int j)"
    and there: "\<forall>m\<in>set ns. \<not> (row_n (h m) = int i \<and> col_n (h m) = int j)"
    by simp_all
  have "g' ! i ! j = g1 ! i ! j"
    using Cons.IH [OF rest there] .
  also have "g1 ! i ! j = g ! i ! j"
    using put_cell_other [OF g1 here] .
  finally show ?case .
qed

lemma output_loop_length:
  "output_loop h ns g = Some g' \<Longrightarrow> length g' = length g"
proof (induction ns arbitrary: g)
  case Nil
  then show ?case by simp
next
  case (Cons n ns)
  then show ?case
    by (auto split: if_splits option.splits dest: put_cell_length)
qed

text \<open>
  Claim C9. A call of \<open>output\<close> that returns leaves the stack empty and changes no cell
  other than those named by the \<open>(row_, col_)\<close> of a node that was on the stack; a second
  call right after it returns the same solver and the same grid.
\<close>

theorem output_frame_and_idempotent:
  assumes "output_ec s g = Some (s', g')"
  shows "running_sol_s s' = []
       \<and> length g' = length g
       \<and> (\<forall>i j. (\<forall>n\<in>set (running_sol_s s).
                   \<not> (row_n (store s n) = int i \<and> col_n (store s n) = int j))
                \<longrightarrow> g' ! i ! j = g ! i ! j)
       \<and> output_ec s' g' = Some (s', g')"
proof (cases "running_sol_s s = []")
  case True
  with assms show ?thesis by (simp add: output_ec_def)
next
  case False
  with assms have loop: "output_loop (store s) (running_sol_s s) g = Some g'"
    and s': "s' = s\<lparr>running_sol_s := []\<rparr>"
    by (auto simp: output_ec_def split: option.splits)
  have frame: "\<forall>i j. (\<forall>n\<in>set (running_sol_s s).
                   \<not> (row_n (store s n) = int i \<and> col_n (store s n) = int j))
                \<longrightarrow> g' ! i ! j = g ! i ! j"
    using output_loop_other [OF loop] by blast
  show ?thesis
    using frame output_loop_length [OF loop] s' by (simp add: output_ec_def)
qed

theorem output_frame_and_idempotent_witness:
  "output_ec two_node_solver [[0, 0], [0, 0]]
     = Some (two_node_solver\<lparr>running_sol_s := []\<rparr>, [[0, 2], [1, 0]])
 \<and> output_ec (two_node_solver\<lparr>running_sol_s := []\<rparr>) [[0, 2], [1, 0]]
     = Some (two_node_solver\<lparr>running_sol_s := []\<rparr>, [[0, 2], [1, 0]])"
proof -
  have run: "output_ec two_node_solver [[0, 0], [0, 0]]
     = Some (two_node_solver\<lparr>running_sol_s := []\<rparr>, [[0, 2], [1, 0]])"
    by (simp add: output_ec_def two_node_solver_def two_node_store_def put_cell_def Node3_def)
  from output_frame_and_idempotent [OF run] run show ?thesis by simp
qed

section \<open>Properties of the choice of engine\<close>

text \<open>
  Claim C10. Every puzzle goes to the exact-cover solver when the grid size exceeds 9,
  whatever the technique; a puzzle goes to the CSP solver exactly when the technique is
  CSP and the grid size is at most 9.
\<close>

theorem engine_choice:
  "(grid_size > 9 \<longrightarrow> (\<forall>e\<in>set (solve_engines technique grid_size puzzles). e = Engine_EC))
 \<and> (Engine_CSP \<in> set (solve_engines technique grid_size puzzles)
      \<longleftrightarrow> puzzles \<noteq> [] \<and> technique = CSP_TECH \<and> grid_size \<le> 9)"
  by (cases puzzles) (auto simp: solve_engines_def engine_for_def CSP_TECH_def DLX_TECH_def)

theorem engine_choice_witness:
  "(16::int) > 9
 \<and> set (solve_engines CSP_TECH 16 [0::nat, 1]) = {Engine_EC}
 \<and> Engine_CSP \<in> set (solve_engines CSP_TECH 9 [0::nat, 1])
 \<and> Engine_CSP \<notin> set (solve_engines DLX_TECH 9 [0::nat, 1])"
  using engine_choice [of 16 CSP_TECH "[0::nat, 1]"]
    engine_choice [of 9 CSP_TECH "[0::nat, 1]"]
    engine_choice [of 9 DLX_TECH "[0::nat, 1]"]
  by (simp add: solve_engines_def engine_for_def CSP_TECH_def DLX_TECH_def)

section \<open>Reading a field after an assignment\<close>

lemma set_same [simp]:
  "left_n (set_left h p v q) = (if q = p then v else left_n (h q))"
  "right_n (set_right h p v q) = (if q = p then v else right_n (h q))"
  "top_n (set_top h p v q) = (if q = p then v else top_n (h q))"
  "bottom_n (set_bottom h p v q) = (if q = p then v else bottom_n (h q))"
  "col_header_n (set_col_header h p v q) = (if q = p then v else col_header_n (h q))"
  "header_n (set_header h p b q) = (if q = p then b else header_n (h q))"
  by (simp_all add: set_left_def set_right_def set_top_def set_bottom_def
      set_col_header_def set_header_def)

lemma set_other [simp]:
  "value_n (set_left h p v q) = value_n (h q)"
  "row_n (set_left h p v q) = row_n (h q)"
  "col_n (set_left h p v q) = col_n (h q)"
  "header_n (set_left h p v q) = header_n (h q)"
  "right_n (set_left h p v q) = right_n (h q)"
  "top_n (set_left h p v q) = top_n (h q)"
  "bottom_n (set_left h p v q) = bottom_n (h q)"
  "col_header_n (set_left h p v q) = col_header_n (h q)"
  "value_n (set_right h p v q) = value_n (h q)"
  "row_n (set_right h p v q) = row_n (h q)"
  "col_n (set_right h p v q) = col_n (h q)"
  "header_n (set_right h p v q) = header_n (h q)"
  "left_n (set_right h p v q) = left_n (h q)"
  "top_n (set_right h p v q) = top_n (h q)"
  "bottom_n (set_right h p v q) = bottom_n (h q)"
  "col_header_n (set_right h p v q) = col_header_n (h q)"
  "value_n (set_top h p v q) = value_n (h q)"
  "row_n (set_top h p v q) = row_n (h q)"
  "col_n (set_top h p v q) = col_n (h q)"
  "header_n (set_top h p v q) = header_n (h q)"
  "left_n (set_top h p v q) = left_n (h q)"
  "right_n (set_top h p v q) = right_n (h q)"
  "bottom_n (set_top h p v q) = bottom_n (h q)"
  "col_header_n (set_top h p v q) = col_header_n (h q)"
  "value_n (set_bottom h p v q) = value_n (h q)"
  "row_n (set_bottom h p v q) = row_n (h q)"
  "col_n (set_bottom h p v q) = col_n (h q)"
  "header_n (set_bottom h p v q) = header_n (h q)"
  "left_n (set_bottom h p v q) = left_n (h q)"
  "right_n (set_bottom h p v q) = right_n (h q)"
  "top_n (set_bottom h p v q) = top_n (h q)"
  "col_header_n (set_bottom h p v q) = col_header_n (h q)"
  "value_n (set_col_header h p v q) = value_n (h q)"
  "row_n (set_col_header h p v q) = row_n (h q)"
  "col_n (set_col_header h p v q) = col_n (h q)"
  "header_n (set_col_header h p v q) = header_n (h q)"
  "left_n (set_col_header h p v q) = left_n (h q)"
  "right_n (set_col_header h p v q) = right_n (h q)"
  "top_n (set_col_header h p v q) = top_n (h q)"
  "bottom_n (set_col_header h p v q) = bottom_n (h q)"
  "value_n (set_header h p b q) = value_n (h q)"
  "row_n (set_header h p b q) = row_n (h q)"
  "col_n (set_header h p b q) = col_n (h q)"
  "left_n (set_header h p b q) = left_n (h q)"
  "right_n (set_header h p b q) = right_n (h q)"
  "top_n (set_header h p b q) = top_n (h q)"
  "bottom_n (set_header h p b q) = bottom_n (h q)"
  "col_header_n (set_header h p b q) = col_header_n (h q)"
  by (simp_all add: set_left_def set_right_def set_top_def set_bottom_def
      set_col_header_def set_header_def)

lemma set_apply_other:
  "q \<noteq> p \<Longrightarrow> set_left h p v q = h q" "q \<noteq> p \<Longrightarrow> set_right h p v q = h q"
  "q \<noteq> p \<Longrightarrow> set_top h p v q = h q" "q \<noteq> p \<Longrightarrow> set_bottom h p v q = h q"
  "q \<noteq> p \<Longrightarrow> set_col_header h p v q = h q" "q \<noteq> p \<Longrightarrow> set_header h p b q = h q"
  by (simp_all add: set_left_def set_right_def set_top_def set_bottom_def
      set_col_header_def set_header_def)

lemma store_eqI:
  assumes "\<And>p. value_n (h p) = value_n (h' p)" "\<And>p. row_n (h p) = row_n (h' p)"
    "\<And>p. col_n (h p) = col_n (h' p)" "\<And>p. header_n (h p) = header_n (h' p)"
    "\<And>p. left_n (h p) = left_n (h' p)" "\<And>p. right_n (h p) = right_n (h' p)"
    "\<And>p. top_n (h p) = top_n (h' p)" "\<And>p. bottom_n (h p) = bottom_n (h' p)"
    "\<And>p. col_header_n (h p) = col_header_n (h' p)"
  shows "(h :: store) = h'"
proof
  fix p
  show "h p = h' p"
    using assms [of p] by (intro node.equality) simp_all
qed

lemma lastp_snoc [simp]: "lastp a (xs @ [x]) = x"
  by (induction xs arbitrary: a) auto

lemma lastp_in: "lastp a xs \<in> set (a # xs)"
  by (induction xs arbitrary: a) auto

lemma firstp_in: "firstp ys b \<in> set (ys @ [b])"
  by (cases ys) auto

lemma lastp_app [simp]: "lastp a (xs @ y # ys) = lastp y ys"
  by (induction xs arbitrary: a) auto

lemma firstp_app [simp]: "firstp (xs @ ys) b = firstp xs (firstp ys b)"
  by (cases xs) auto

lemma dpath_app: "dpath nx pv a (xs @ y # ys) b = (dpath nx pv a xs y \<and> dpath nx pv y ys b)"
  by (induction xs arbitrary: a) auto

lemma dpath_snoc: "dpath nx pv a (xs @ [y]) b = (dpath nx pv a xs y \<and> nx y = b \<and> pv b = y)"
  by (simp add: dpath_app)

lemma dpath_upd_nx: "p \<notin> set (a # xs) \<Longrightarrow> dpath (nx(p := v)) pv a xs b = dpath nx pv a xs b"
  by (induction xs arbitrary: a) auto

lemma dpath_upd_pv: "p \<notin> set (xs @ [b]) \<Longrightarrow> dpath nx (pv(p := v)) a xs b = dpath nx pv a xs b"
  by (induction xs arbitrary: a) auto

lemma dpath_cong:
  "\<forall>p\<in>set (a # xs). nx p = nx' p \<Longrightarrow> \<forall>p\<in>set (xs @ [b]). pv p = pv' p \<Longrightarrow>
   dpath nx pv a xs b = dpath nx' pv' a xs b"
  by (induction xs arbitrary: a) auto

lemma dpath_nx_last: "dpath nx pv a xs b \<Longrightarrow> nx (lastp a xs) = b"
  by (induction xs arbitrary: a) auto

lemma dpath_pv_first: "dpath nx pv a xs b \<Longrightarrow> pv (firstp xs b) = a"
  by (cases xs) auto

lemma dpath_nx_first: "dpath nx pv a xs b \<Longrightarrow> nx a = firstp xs b"
  by (cases xs) auto

lemma dpath_pv_last: "dpath nx pv a xs b \<Longrightarrow> pv b = lastp a xs"
  by (induction xs arbitrary: a) auto

lemma dpath_mid:
  "dpath nx pv a (xs @ n # ys) b \<Longrightarrow> nx n = firstp ys b \<and> pv n = lastp a xs"
  using dpath_nx_first [of nx pv n ys b] dpath_pv_last [of nx pv a xs n]
  by (simp add: dpath_app)

lemma dpath_remove:
  assumes "dpath nx pv a (xs @ n # ys) b"
    and "distinct (a # xs @ n # ys)" and "distinct (xs @ n # ys @ [b])"
  shows "dpath (nx(lastp a xs := firstp ys b)) (pv(firstp ys b := lastp a xs)) a (xs @ ys) b"
  using assms
proof (induction xs arbitrary: a)
  case Nil
  show ?case
  proof (cases ys)
    case Nil
    then show ?thesis by simp
  next
    case (Cons y zs)
    have "dpath nx pv y zs b" using Nil.prems(1) Cons by simp
    moreover have "a \<notin> set (y # zs)" using Nil.prems(2) Cons by auto
    moreover have "y \<notin> set (zs @ [b])" using Nil.prems(3) Cons by auto
    ultimately have "dpath (nx(a := y)) (pv(y := a)) y zs b"
      using dpath_upd_nx [of a y zs nx y "pv(y := a)" b] dpath_upd_pv [of y zs b nx pv a y]
      by blast
    then show ?thesis using Cons by (simp del: fun_upd_apply add: fun_upd_same)
  qed
next
  case (Cons x xs)
  have step: "dpath (nx(lastp x xs := firstp ys b)) (pv(firstp ys b := lastp x xs))
      x (xs @ ys) b"
    using Cons.prems by (intro Cons.IH) auto
  have "lastp x xs \<in> set (x # xs)" by (rule lastp_in)
  then have l: "lastp x xs \<noteq> a" using Cons.prems(2) by auto
  have "firstp ys b \<in> set (ys @ [b])" by (rule firstp_in)
  then have h: "firstp ys b \<noteq> x" using Cons.prems(3) by auto
  have "nx a = x" "pv x = a" using Cons.prems(1) by simp_all
  then show ?case using step l h by (simp del: fun_upd_apply add: fun_upd_other)
qed

lemma fB_set [simp]:
  "fB (set_bottom h p v) = (fB h)(p := v)" "fB (set_top h p v) = fB h"
  "fB (set_left h p v) = fB h" "fB (set_right h p v) = fB h"
  "fB (set_col_header h p v) = fB h" "fB (set_header h p b) = fB h"
  by (auto simp: fB_def)

lemma fT_set [simp]:
  "fT (set_top h p v) = (fT h)(p := v)" "fT (set_bottom h p v) = fT h"
  "fT (set_left h p v) = fT h" "fT (set_right h p v) = fT h"
  "fT (set_col_header h p v) = fT h" "fT (set_header h p b) = fT h"
  by (auto simp: fT_def)

lemma fR_set [simp]:
  "fR (set_right h p v) = (fR h)(p := v)" "fR (set_top h p v) = fR h"
  "fR (set_left h p v) = fR h" "fR (set_bottom h p v) = fR h"
  "fR (set_col_header h p v) = fR h" "fR (set_header h p b) = fR h"
  by (auto simp: fR_def)

lemma fL_set [simp]:
  "fL (set_left h p v) = (fL h)(p := v)" "fL (set_top h p v) = fL h"
  "fL (set_bottom h p v) = fL h" "fL (set_right h p v) = fL h"
  "fL (set_col_header h p v) = fL h" "fL (set_header h p b) = fL h"
  by (auto simp: fL_def)

lemma split1: "[0..<Suc K * M] = [0..<K * M] @ map (\<lambda>b. K * M + b) [0..<M]"
proof -
  have "[0..<K * M + M] = [0..<K * M] @ [K * M..<K * M + M]"
    by (rule upt_add_eq_append) simp
  moreover have "[K * M..<K * M + M] = map (\<lambda>b. K * M + b) [0..<M]"
    by (simp add: map_add_upt add.commute)
  ultimately show ?thesis by (simp add: add.commute)
qed

lemma fold_nested:
  "fold (\<lambda>a. fold (\<lambda>b. F a b) [0..<M]) [0..<K] s
   = fold (\<lambda>r. F (r div M) (r mod M)) [0..<K * M] s"
proof (induction K arbitrary: s)
  case 0
  then show ?case by simp
next
  case (Suc K)
  have inner: "fold (\<lambda>r. F (r div M) (r mod M)) (map (\<lambda>b. K * M + b) [0..<M]) t
             = fold (\<lambda>b. F K b) [0..<M] t" for t
    unfolding fold_map by (rule fold_cong) (auto simp: comp_def)
  have "fold (\<lambda>a. fold (\<lambda>b. F a b) [0..<M]) [0..<Suc K] s
      = fold (\<lambda>b. F K b) [0..<M] (fold (\<lambda>a. fold (\<lambda>b. F a b) [0..<M]) [0..<K] s)"
    by simp
  also have "\<dots> = fold (\<lambda>b. F K b) [0..<M] (fold (\<lambda>r. F (r div M) (r mod M)) [0..<K * M] s)"
    by (simp only: Suc.IH)
  also have "\<dots> = fold (\<lambda>r. F (r div M) (r mod M)) [0..<Suc K * M] s"
    unfolding split1 fold_append comp_def inner ..
  finally show ?case .
qed

lemma init_cells_single:
  assumes "G = nat (GRID_SIZE_s s)"
  shows "init_cells s
   = fold (\<lambda>r. init_cell (r div (G * G)) (r mod (G * G) div G) (r mod (G * G) mod G))
       [0..<G * (G * G)] (\<lambda>rc. 0, s)"
proof -
  have inner: "(\<lambda>i. fold (\<lambda>j. fold (\<lambda>k. init_cell i j k) [0..<G]) [0..<G])
      = (\<lambda>i. fold (\<lambda>jk. init_cell i (jk div G) (jk mod G)) [0..<G * G])"
    by (intro ext) (rule fold_nested)
  have "init_cells s
      = fold (\<lambda>i. fold (\<lambda>jk. init_cell i (jk div G) (jk mod G)) [0..<G * G]) [0..<G]
          (\<lambda>rc. 0, s)"
    unfolding init_cells_def Let_def assms [symmetric] inner ..
  also have "\<dots> = fold (\<lambda>r. init_cell (r div (G * G)) (r mod (G * G) div G)
       (r mod (G * G) mod G)) [0..<G * (G * G)] (\<lambda>rc. 0, s)"
    by (rule fold_nested)
  finally show ?thesis .
qed

lemma r_decomp: "ri g r * (gN g * gN g) + rj g r * gN g + rk g r = r"
proof -
  have "r mod (gN g * gN g) mod gN g = r mod gN g"
    by (simp add: mod_mod_cancel)
  then have "rj g r * gN g + rk g r = r mod (gN g * gN g)"
    unfolding rj_def rk_def by (metis div_mult_mod_eq)
  then show ?thesis
    unfolding ri_def by (simp add: add.assoc div_mult_mod_eq)
qed

lemma rk_alt: "r mod (gN g * gN g) mod gN g = rk g r"
  by (simp add: rk_def mod_mod_cancel)

lemma m4: "(0 + 3) mod 4 = (3::nat)" "(0 + 1) mod 4 = (1::nat)" "(1 + 3) mod 4 = (0::nat)" "(1 + 1) mod 4 = (2::nat)"
  "(2 + 3) mod 4 = (1::nat)" "(2 + 1) mod 4 = (3::nat)" "(3 + 3) mod 4 = (2::nat)" "(3 + 1) mod 4 = (0::nat)"
  by simp_all

lemma link4:
  assumes "a1 = Suc a0" "a2 = Suc a1" "a3 = Suc a2"
  shows "set_right (set_left (set_right (set_left (set_right (set_left (set_left (set_right
           (h(a0 := A, a1 := A, a2 := A, a3 := A))
           a0 a1) a0 a3) a1 a0) a1 a2) a2 a1) a2 a3) a3 a2) a3 a0
       = h(a0 := A\<lparr>left_n := a3, right_n := a1\<rparr>, a1 := A\<lparr>left_n := a0, right_n := a2\<rparr>,
           a2 := A\<lparr>left_n := a1, right_n := a3\<rparr>, a3 := A\<lparr>left_n := a2, right_n := a0\<rparr>)"
  using assms by (intro ext) (simp add: set_left_def set_right_def)

lemma init_cell_eq:
  assumes "fields_ok g s" "fresh s = 2 + 4 * r"
  shows "init_cell (ri g r) (rj g r) (rk g r) (m, s)
    = (m((r, colidx g 0 r) := nd r 0, (r, colidx g 1 r) := nd r 1,
         (r, colidx g 2 r) := nd r 2, (r, colidx g 3 r) := nd r 3),
       s\<lparr>store := (store s)(nd r 0 := cell_node g r 0, nd r 1 := cell_node g r 1,
                             nd r 2 := cell_node g r 2, nd r 3 := cell_node g r 3),
         fresh := 2 + 4 * Suc r\<rparr>)"
proof -
  have row: "ri g r * (gN g * gN g) + rj g r * gN g + rk g r = r" by (rule r_decomp)
  have nds: "fresh s = nd r 0" "nd r (Suc 0) = Suc (nd r 0)" "nd r 2 = Suc (Suc (nd r 0))"
    "nd r 3 = Suc (Suc (Suc (nd r 0)))" "6 + 4 * r = Suc (Suc (Suc (Suc (nd r 0))))"
    using assms(2) by (simp_all add: nd_def)
  have cn: "cell_node g r 0 = (Node3 (int (ri g r)) (int (rj g r)) (int (rk g r)))
               \<lparr>left_n := nd r 3, right_n := nd r 1\<rparr>"
    "cell_node g r 1 = (Node3 (int (ri g r)) (int (rj g r)) (int (rk g r)))
               \<lparr>left_n := nd r 0, right_n := nd r 2\<rparr>"
    "cell_node g r 2 = (Node3 (int (ri g r)) (int (rj g r)) (int (rk g r)))
               \<lparr>left_n := nd r 1, right_n := nd r 3\<rparr>"
    "cell_node g r 3 = (Node3 (int (ri g r)) (int (rj g r)) (int (rk g r)))
               \<lparr>left_n := nd r 2, right_n := nd r 0\<rparr>"
    unfolding cell_node_def m4 by (rule refl)+
  show ?thesis
    unfolding init_cell_def alloc_def Let_def cn
    using assms(1) row
    apply (simp add: fields_ok_def colidx_def box_of_def nat_mult_distrib nat_add_distrib
        link4 [OF refl refl refl] nds del: fun_upd_apply)
    done
qed

lemma nd_bounds: "f < 4 \<Longrightarrow> 2 + 4 * r \<le> nd r f \<and> nd r f < 2 + 4 * Suc r"
  by (simp add: nd_def)

lemma nd_inv: "f < 4 \<Longrightarrow> (nd r f - 2) div 4 = r \<and> (nd r f - 2) mod 4 = f"
  by (simp add: nd_def)

lemma nd_inj: "f < 4 \<Longrightarrow> f' < 4 \<Longrightarrow> nd r f = nd r' f' \<longleftrightarrow> r = r' \<and> f = f'"
  unfolding nd_def by presburger

lemma storeA_Suc:
  "(storeA g h0 n)(nd n 0 := cell_node g n 0, nd n 1 := cell_node g n 1,
       nd n 2 := cell_node g n 2, nd n 3 := cell_node g n 3) = storeA g h0 (Suc n)"
proof
  fix p
  have c: "p < 2 + 4 * n \<or> 2 + 4 * Suc n \<le> p \<or> p = nd n 0 \<or> p = nd n 1
         \<or> p = nd n 2 \<or> p = nd n 3"
    unfolding nd_def by arith
  have d: "nd n 0 \<noteq> nd n 1" "nd n 0 \<noteq> nd n 2" "nd n 0 \<noteq> nd n 3" "nd n 1 \<noteq> nd n 2"
    "nd n 1 \<noteq> nd n 3" "nd n 2 \<noteq> nd n 3"
    by (simp_all add: nd_def)
  have v: "storeA g h0 (Suc n) (nd n f) = cell_node g n f" if "f < 4" for f
    using that nd_bounds [OF that, of n] nd_inv [OF that, of n] by (simp add: storeA_def)
  have lo: "storeA g h0 (Suc n) p = storeA g h0 n p" "p \<noteq> nd n 0" "p \<noteq> nd n 1"
    "p \<noteq> nd n 2" "p \<noteq> nd n 3" if "p < 2 + 4 * n \<or> 2 + 4 * Suc n \<le> p"
    using that by (auto simp: storeA_def nd_def)
  from c show "((storeA g h0 n)(nd n 0 := cell_node g n 0, nd n 1 := cell_node g n 1,
       nd n 2 := cell_node g n 2, nd n 3 := cell_node g n 3)) p = storeA g h0 (Suc n) p"
    using d v [of 0] v [of 1] v [of 2] v [of 3] lo by (elim disjE) auto
qed

lemma matrixA_Suc:
  "(matrixA g n)((n, colidx g 0 n) := nd n 0, (n, colidx g 1 n) := nd n 1,
         (n, colidx g 2 n) := nd n 2, (n, colidx g 3 n) := nd n 3) = matrixA g (Suc n)"
proof
  fix rc :: "nat \<times> nat"
  obtain r c where rc: "rc = (r, c)" by (cases rc)
  show "((matrixA g n)((n, colidx g 0 n) := nd n 0, (n, colidx g 1 n) := nd n 1,
         (n, colidx g 2 n) := nd n 2, (n, colidx g 3 n) := nd n 3)) rc = matrixA g (Suc n) rc"
  proof (cases "r = n")
    case True
    then show ?thesis unfolding rc by (simp add: matrixA_def)
  next
    case False
    then have "r < Suc n \<longleftrightarrow> r < n" by arith
    then show ?thesis unfolding rc using False by (simp add: matrixA_def)
  qed
qed

lemma fields_ok_upd [simp]:
  "fields_ok g (s\<lparr>store := h, fresh := a\<rparr>) = fields_ok g s"
  "fields_ok g (s\<lparr>store := h\<rparr>) = fields_ok g s"
  by (simp_all add: fields_ok_def)

lemma init_rows_fold:
  assumes "fields_ok g s" "fresh s = 2"
  shows "fold (\<lambda>r. init_cell (ri g r) (rj g r) (rk g r)) [0..<n] (\<lambda>rc. 0, s)
       = (matrixA g n, s\<lparr>store := storeA g (store s) n, fresh := 2 + 4 * n\<rparr>)"
proof (induction n)
  case 0
  have "matrixA g 0 = (\<lambda>rc. 0)" by (rule ext) (simp add: matrixA_def split: prod.splits)
  moreover have "storeA g (store s) 0 = store s" by (rule ext) (auto simp: storeA_def)
  ultimately show ?case using assms(2) by simp
next
  case (Suc n)
  let ?s = "s\<lparr>store := storeA g (store s) n, fresh := 2 + 4 * n\<rparr>"
  have "fold (\<lambda>r. init_cell (ri g r) (rj g r) (rk g r)) [0..<Suc n] (\<lambda>rc. 0, s)
      = init_cell (ri g n) (rj g n) (rk g n) (matrixA g n, ?s)"
    by (simp add: Suc.IH)
  also have "\<dots> = (matrixA g (Suc n), s\<lparr>store := storeA g (store s) (Suc n),
        fresh := 2 + 4 * Suc n\<rparr>)"
  proof -
    have ok: "fields_ok g ?s" and fr: "fresh ?s = 2 + 4 * n" using assms(1) by simp_all
    have st: "store ?s = storeA g (store s) n" by simp
    show ?thesis
      unfolding init_cell_eq [OF ok fr] st storeA_Suc matrixA_Suc by simp
  qed
  finally show ?case .
qed

lemma init_cells_eq:
  assumes "fields_ok g s" "fresh s = 2"
  shows "init_cells s
     = (matrixA g (NR g), s\<lparr>store := storeA g (store s) (NR g), fresh := 2 + 4 * NR g\<rparr>)"
proof -
  have G: "gN g = nat (GRID_SIZE_s s)" using assms(1) by (simp add: fields_ok_def)
  have "init_cells s = fold (\<lambda>r. init_cell (ri g r) (rj g r) (rk g r)) [0..<NR g] (\<lambda>rc. 0, s)"
    unfolding init_cells_single [OF G] ri_def rj_def rk_alt NR_def
    by (simp add: mult.assoc)
  then show ?thesis by (simp add: init_rows_fold [OF assms])
qed

lemma Suc_mult_le: "a < n \<Longrightarrow> Suc a * n \<le> n * (n::nat)"
  by (metis Suc_leI mult_le_mono1)

lemma fam_div: "x < m \<Longrightarrow> (m * f + x) div m = (f::nat)"
  by (cases "m = 0") simp_all

lemma fam_div': "x < m \<Longrightarrow> (f * m + x) div m = (f::nat)"
  by (cases "m = 0") simp_all

lemma fam_mod': "x < m \<Longrightarrow> (f * m + x) mod m = (x::nat)"
  by simp

lemma triple_mod: "(i * (N * N) + j * N + k) mod N = k mod (N::nat)"
proof -
  have "i * (N * N) + j * N + k = (i * N + j) * N + k" by (simp add: algebra_simps)
  then show ?thesis by simp
qed

lemma wf_geom_pos: "wf_geom g \<Longrightarrow> 0 < gN g"
  by (simp add: wf_geom_def)

lemma ri_less: "0 < gN g \<Longrightarrow> r < NR g \<Longrightarrow> ri g r < gN g"
  unfolding ri_def NR_def by (simp add: less_mult_imp_div_less mult.commute)

lemma rj_less: "0 < gN g \<Longrightarrow> rj g r < gN g"
  unfolding rj_def by (simp add: less_mult_imp_div_less)

lemma rk_less: "0 < gN g \<Longrightarrow> rk g r < gN g"
  unfolding rk_def by simp

lemma row_of_triple:
  assumes "j < gN g" "k < gN g"
  shows "ri g (i * (gN g * gN g) + j * gN g + k) = i"
    and "rj g (i * (gN g * gN g) + j * gN g + k) = j"
    and "rk g (i * (gN g * gN g) + j * gN g + k) = k"
proof -
  have jk: "j * gN g + k < gN g * gN g"
  proof -
    have "j * gN g + k < j * gN g + gN g" using assms(2) by simp
    also have "\<dots> = Suc j * gN g" by simp
    also have "\<dots> \<le> gN g * gN g" using assms(1) by (rule Suc_mult_le)
    finally show ?thesis .
  qed
  have e: "i * (gN g * gN g) + j * gN g + k = i * (gN g * gN g) + (j * gN g + k)" by simp
  show "ri g (i * (gN g * gN g) + j * gN g + k) = i"
    unfolding ri_def e using jk by (rule fam_div')
  have m: "(i * (gN g * gN g) + (j * gN g + k)) mod (gN g * gN g) = j * gN g + k"
    using jk by (rule fam_mod')
  show "rj g (i * (gN g * gN g) + j * gN g + k) = j"
    unfolding rj_def e m using assms(2) by (rule fam_div')
  show "rk g (i * (gN g * gN g) + j * gN g + k) = k"
    unfolding rk_def triple_mod using assms(2) by simp
qed

lemma triple_less:
  assumes "i < gN g" "j < gN g" "k < gN g"
  shows "i * (gN g * gN g) + j * gN g + k < NR g"
proof -
  have "j * gN g + k < Suc j * gN g" using assms(3) by simp
  also have "\<dots> \<le> gN g * gN g" using assms(2) by (rule Suc_mult_le)
  finally have "i * (gN g * gN g) + (j * gN g + k) < Suc i * (gN g * gN g)" by simp
  also have "\<dots> \<le> gN g * (gN g * gN g)"
    using assms(1) by (intro mult_le_mono1) simp
  finally show ?thesis by (simp add: NR_def mult.assoc add.assoc)
qed

lemma box_of_less:
  assumes "wf_geom g" "i < gN g" "j < gN g"
  shows "box_of g i j < gN g"
proof -
  have N: "gN g = gR g * gC g" and R: "0 < gR g" and C: "0 < gC g"
    using assms(1) by (simp_all add: wf_geom_def)
  have a: "i div gR g < gC g" using assms(2) R unfolding N
    by (simp add: less_mult_imp_div_less mult.commute)
  have "j div gC g < gR g" using assms(3) unfolding N by (simp add: less_mult_imp_div_less)
  then have "Suc (j div gC g) * gC g \<le> gR g * gC g"
    by (intro mult_le_mono1) simp
  then show ?thesis unfolding box_of_def N using a by simp
qed

lemma pair_less: "a < (n::nat) \<Longrightarrow> b < n \<Longrightarrow> a * n + b < n * n"
proof -
  assume a: "a < n" and b: "b < n"
  have "a * n + b < Suc a * n" using b by simp
  also have "\<dots> \<le> n * n" using a by (rule Suc_mult_le)
  finally show ?thesis .
qed

lemma colidx_family:
  assumes "wf_geom g" "r < NR g" "f < 4"
  shows "colidx g f r < NC g" and "colidx g f r div (gN g * gN g) = f"
proof -
  have pos: "0 < gN g" using assms(1) by (rule wf_geom_pos)
  note b = ri_less [OF pos assms(2)] rj_less [OF pos, of r] rk_less [OF pos, of r]
  have bx: "box_of g (ri g r) (rj g r) < gN g" using assms(1) b(1,2) by (rule box_of_less)
  note p = pair_less [OF b(1) b(3)] pair_less [OF b(2) b(3)] pair_less [OF b(1) b(2)]
    pair_less [OF bx b(3)]
  from assms(3) consider "f = 0" | "f = 1" | "f = 2" | "f = 3" by arith
  then show "colidx g f r < NC g"
    using p by cases (simp_all add: colidx_def NC_def)
  have e: "colidx g 0 r = gN g * gN g * 0 + (ri g r * gN g + rk g r)"
    "colidx g 1 r = gN g * gN g * 1 + (rj g r * gN g + rk g r)"
    "colidx g 2 r = gN g * gN g * 2 + (ri g r * gN g + rj g r)"
    "colidx g 3 r = gN g * gN g * 3 + (box_of g (ri g r) (rj g r) * gN g + rk g r)"
    by (simp_all add: colidx_def)
  from assms(3) consider "f = 0" | "f = 1" | "f = 2" | "f = 3" by arith
  then show "colidx g f r div (gN g * gN g) = f"
  proof cases
    case 1 show ?thesis unfolding 1 e using p(1) by (rule fam_div)
  next
    case 2 show ?thesis unfolding 2 e using p(2) by (rule fam_div)
  next
    case 3 show ?thesis unfolding 3 e using p(3) by (rule fam_div)
  next
    case 4 show ?thesis unfolding 4 e using p(4) by (rule fam_div)
  qed
qed

text \<open>Every column has a row: the emptiness check of \<open>init\<close> never fires.\<close>

lemma column_nonempty:
  assumes "wf_geom g" "c < NC g"
  shows "\<exists>r<NR g. colidx g (c div (gN g * gN g)) r = c"
proof -
  have N: "gN g = gR g * gC g" and R: "0 < gR g" and C: "0 < gC g"
    using assms(1) by (simp_all add: wf_geom_def)
  have pos: "0 < gN g" using assms(1) by (rule wf_geom_pos)
  define f where "f = c div (gN g * gN g)"
  define d where "d = c mod (gN g * gN g)"
  define a where "a = d div gN g"
  define k where "k = d mod gN g"
  have c: "c = f * (gN g * gN g) + d"
    unfolding f_def d_def using div_mult_mod_eq [of c "gN g * gN g"] by simp
  have f: "f < 4" using assms(2) unfolding f_def NC_def
    by (simp add: less_mult_imp_div_less)
  have d: "d < gN g * gN g" using pos by (simp add: d_def)
  have a: "a < gN g" using d by (simp add: a_def less_mult_imp_div_less)
  have k: "k < gN g" using pos by (simp add: k_def)
  have dk: "d = a * gN g + k" by (simp add: a_def k_def)
  from f consider "f = 0" | "f = 1" | "f = 2" | "f = 3" by arith
  then show ?thesis
  proof cases
    case 1
    let ?r = "a * (gN g * gN g) + 0 * gN g + k"
    have "?r < NR g" using a k pos by (intro triple_less) simp_all
    moreover have "colidx g 0 ?r = c"
      unfolding colidx_def using row_of_triple [of 0 g k a] k pos c dk 1 by simp
    ultimately show ?thesis unfolding f_def [symmetric] 1 by blast
  next
    case 2
    let ?r = "0 * (gN g * gN g) + a * gN g + k"
    have "?r < NR g" using a k pos by (intro triple_less) simp_all
    moreover have "colidx g 1 ?r = c"
      unfolding colidx_def using row_of_triple [of a g k 0] a k c dk 2 by simp
    ultimately show ?thesis unfolding f_def [symmetric] 2 by blast
  next
    case 3
    let ?r = "a * (gN g * gN g) + k * gN g + 0"
    have "?r < NR g" using a k pos by (intro triple_less) simp_all
    moreover have "colidx g 2 ?r = c"
      unfolding colidx_def using row_of_triple [of k g 0 a] a k pos c dk 3 by simp
    ultimately show ?thesis unfolding f_def [symmetric] 3 by blast
  next
    case 4
    define i where "i = (a mod gC g) * gR g"
    define j where "j = (a div gC g) * gC g"
    have i: "i < gN g" unfolding i_def N using C
      by (metis mod_less_divisor mult.commute mult_less_cancel1 R)
    have "j \<le> a" unfolding j_def by simp
    then have j: "j < gN g" using a by simp
    have bx: "box_of g i j = a"
      unfolding box_of_def i_def j_def using R C by simp
    let ?r = "i * (gN g * gN g) + j * gN g + k"
    have "?r < NR g" using i j k by (rule triple_less)
    moreover have "colidx g 3 ?r = c"
      unfolding colidx_def using row_of_triple [of j g k i] j k c dk 4 bx by simp
    ultimately show ?thesis unfolding f_def [symmetric] 4 by blast
  qed
qed

lemma dpath_extend:
  assumes "dpath nx pv a xs b" and "x \<notin> set (a # xs @ [b])" and "b \<notin> set xs"
    and "distinct (a # xs)"
  shows "dpath (nx(lastp a xs := x, x := b)) (pv(x := lastp a xs, b := x)) a (xs @ [x]) b"
  using assms
proof (induction xs arbitrary: a)
  case Nil
  then show ?case by simp
next
  case (Cons y ys)
  have step: "dpath (nx(lastp y ys := x, x := b)) (pv(x := lastp y ys, b := x)) y (ys @ [x]) b"
    using Cons.prems by (intro Cons.IH) auto
  have "lastp y ys \<in> set (y # ys)" by (rule lastp_in)
  then have "lastp y ys \<noteq> a" using Cons.prems(4) by auto
  moreover have "x \<noteq> a" "y \<noteq> x" "y \<noteq> b" using Cons.prems(2,3) by auto
  moreover have "nx a = y" "pv y = a" using Cons.prems(1) by simp_all
  ultimately show ?case using step by (simp del: fun_upd_apply add: fun_upd_other)
qed

lemma linked_rows_Suc:
  "linked_rows m j (Suc n)
   = (if m (n, j) \<noteq> 0 then linked_rows m j n @ [m (n, j)] else linked_rows m j n)"
  by (simp add: linked_rows_def)

lemma link_loop:
  assumes "vpath h hp [] hp"
    and "\<forall>i<n. m (i, j) \<noteq> hp"
    and "\<forall>i<n. \<forall>i'<n. m (i, j) \<noteq> 0 \<longrightarrow> m (i, j) = m (i', j) \<longrightarrow> i = i'"
  shows "\<exists>h'. fold (link_cell m hp j) [0..<n] (h, hp) = (h', lastp hp (linked_rows m j n))
           \<and> vpath h' hp (linked_rows m j n) hp \<and> link_frame h h' hp (linked_rows m j n)"
  using assms(2,3)
proof (induction n)
  case 0
  show ?case using assms(1) by (simp add: linked_rows_def link_frame_def)
next
  case (Suc n)
  let ?ns = "linked_rows m j n"
  have p1: "\<forall>i<n. m (i, j) \<noteq> hp" using Suc.prems(1) by (blast intro: less_SucI)
  have p2: "\<forall>i<n. \<forall>i'<n. m (i, j) \<noteq> 0 \<longrightarrow> m (i, j) = m (i', j) \<longrightarrow> i = i'"
    using Suc.prems(2) by (blast intro: less_SucI)
  from Suc.IH [OF p1 p2] obtain h1 where
    f: "fold (link_cell m hp j) [0..<n] (h, hp) = (h1, lastp hp ?ns)"
    and p: "vpath h1 hp ?ns hp" and fr: "link_frame h h1 hp ?ns"
    by blast
  have step0: "fold (link_cell m hp j) [0..<Suc n] (h, hp)
      = link_cell m hp j n (h1, lastp hp ?ns)"
    using f by simp
  show ?case
  proof (cases "m (n, j) = 0")
    case True
    have "link_cell m hp j n (h1, lastp hp ?ns) = (h1, lastp hp ?ns)"
      using True by (simp add: link_cell_def)
    then show ?thesis using step0 p fr True by (simp add: linked_rows_Suc del: upt_Suc)
  next
    case False
    let ?x = "m (n, j)"
    let ?l = "lastp hp ?ns"
    let ?h2 = "set_col_header (set_top (set_bottom (set_bottom (set_top h1 ?x ?l) ?l ?x)
                 ?x hp) hp ?x) ?x hp"
    have xs: "set ?ns \<subseteq> {m (i, j) | i. i < n \<and> m (i, j) \<noteq> 0}"
      by (auto simp: linked_rows_def)
    have xn: "?x \<notin> set ?ns"
    proof
      assume "?x \<in> set ?ns"
      then obtain i where "i < n" "m (i, j) \<noteq> 0" "?x = m (i, j)" using xs by blast
      then show False using Suc.prems(2) by (metis less_Suc_eq less_irrefl)
    qed
    have xh: "?x \<noteq> hp" using Suc.prems(1) by simp
    have hn: "hp \<notin> set ?ns" using xs p1 by auto
    have dist: "distinct ?ns"
      unfolding linked_rows_def distinct_map
      using p2 by (auto simp: inj_on_def)
    have "link_cell m hp j n (h1, lastp hp ?ns) = (?h2, ?x)"
      using False by (simp add: link_cell_def Let_def)
    then have step: "fold (link_cell m hp j) [0..<Suc n] (h, hp) = (?h2, ?x)"
      using step0 by simp
    have "dpath ((fB h1)(?l := ?x, ?x := hp)) ((fT h1)(?x := ?l, hp := ?x)) hp (?ns @ [?x]) hp"
      using p xn xh hn dist by (intro dpath_extend) auto
    then have path: "vpath ?h2 hp (?ns @ [?x]) hp" by simp
    have l_in: "?l \<in> set (hp # ?ns)" by (rule lastp_in)
    have f1: "?h2 p = h p" if "p \<notin> set (hp # ?ns @ [?x])" for p
    proof -
      have "p \<noteq> ?x" "p \<noteq> hp" "p \<noteq> ?l" using that l_in by auto
      then have "?h2 p = h1 p" by (simp add: set_apply_other)
      moreover have "h1 p = h p" using fr that by (simp add: link_frame_def)
      ultimately show ?thesis by simp
    qed
    have f2: "value_n (?h2 p) = value_n (h p) \<and> row_n (?h2 p) = row_n (h p)
          \<and> col_n (?h2 p) = col_n (h p) \<and> header_n (?h2 p) = header_n (h p)
          \<and> left_n (?h2 p) = left_n (h p) \<and> right_n (?h2 p) = right_n (h p)" for p
      using fr by (simp add: link_frame_def)
    have f3: "col_header_n (?h2 hp) = col_header_n (h hp)"
      using fr xh by (simp add: link_frame_def)
    have f4: "col_header_n (?h2 p) = hp" if "p \<in> set (?ns @ [?x])" for p
      using fr that by (cases "p = ?x") (simp_all add: link_frame_def)
    have frame: "link_frame h ?h2 hp (?ns @ [?x])"
      unfolding link_frame_def using f1 f2 f3 f4 by blast
    show ?thesis
      using step path frame False by (simp add: linked_rows_Suc del: upt_Suc)
  qed
qed

lemma create_col_helper_walk:
  assumes "hpath h cur ys root" and "root \<notin> set ys" and "hp \<notin> set (cur # ys)"
    and "0 \<notin> set (cur # ys)" and "hp \<noteq> 0" and "root \<noteq> 0"
  shows "create_col_helper h root hp cur
       = Some (True, set_right (set_left (set_right (set_left h root hp) hp root) hp
                 (lastp cur ys)) (lastp cur ys) hp)"
  using assms
proof (induction ys arbitrary: cur)
  case Nil
  then have "right_n (h cur) = root" "cur \<noteq> hp" "cur \<noteq> 0" by (simp_all add: fR_def)
  then show ?case
    using Nil.prems(5,6) by (subst create_col_helper.simps) (simp add: Let_def)
next
  case (Cons y ys)
  have r: "right_n (h cur) = y" using Cons.prems(1) by (simp add: fR_def)
  have "y \<noteq> root" "cur \<noteq> hp" "cur \<noteq> 0" using Cons.prems by auto
  moreover have "create_col_helper h root hp y
       = Some (True, set_right (set_left (set_right (set_left h root hp) hp root) hp
                 (lastp y ys)) (lastp y ys) hp)"
    using Cons.prems by (intro Cons.IH) auto
  ultimately show ?case
    using r by (subst create_col_helper.simps) simp
qed

lemma create_col_append:
  assumes "hpath h root hs root" and "distinct (root # hs)" and "hp \<notin> set (root # hs)"
    and "0 \<notin> set (root # hs)" and "hp \<noteq> 0" and "header_n (h hp)"
  shows "\<exists>h'. create_col h root hp = Some (True, h') \<and> hpath h' root (hs @ [hp]) root
           \<and> h' = set_right (set_left (set_right (set_left h root hp) hp root) hp
                 (lastp root hs)) (lastp root hs) hp"
proof -
  let ?l = "lastp root hs"
  let ?h' = "set_right (set_left (set_right (set_left h root hp) hp root) hp ?l) ?l hp"
  have "create_col_helper h root hp root = Some (True, ?h')"
    using assms by (intro create_col_helper_walk) auto
  then have c: "create_col h root hp = Some (True, ?h')"
    using assms(5,6) by (simp add: create_col_def)
  have l: "?l \<noteq> hp" using lastp_in [of root hs] assms(3) by auto
  have rt: "root \<noteq> hp" using assms(3) by auto
  have "dpath ((fR h)(?l := hp, hp := root)) ((fL h)(hp := ?l, root := hp)) root (hs @ [hp]) root"
    using assms by (intro dpath_extend) auto
  moreover have "fR ?h' = (fR h)(?l := hp, hp := root)"
    using l by (simp add: fun_upd_twist)
  moreover have "fL ?h' = (fL h)(hp := ?l, root := hp)"
    using rt by (simp add: fun_upd_twist)
  ultimately have "hpath ?h' root (hs @ [hp]) root" by simp
  then show ?thesis using c by blast
qed

lemma matrixA_col:
  assumes "wf_geom g" "c < NC g" "r < NR g"
  shows "matrixA g (NR g) (r, c) = (if colidx g (fam g c) r = c then nd r (fam g c) else 0)"
proof -
  have fm: "colidx g f r = c \<Longrightarrow> f = fam g c" if "f < 4" for f
    using colidx_family(2) [OF assms(1,3) that] by (auto simp: fam_def)
  have f4: "fam g c < 4" using assms(2) unfolding fam_def NC_def
    by (simp add: less_mult_imp_div_less)
  show ?thesis
  proof (cases "colidx g (fam g c) r = c")
    case True
    from f4 consider "fam g c = 0" | "fam g c = 1" | "fam g c = 2" | "fam g c = 3" by arith
    then show ?thesis
    proof cases
      case 1 then show ?thesis
        using True assms(3) fm [of 3] fm [of 2] fm [of 1] by (auto simp: matrixA_def)
    next
      case 2 then show ?thesis
        using True assms(3) fm [of 3] fm [of 2] fm [of 1] by (auto simp: matrixA_def)
    next
      case 3 then show ?thesis
        using True assms(3) fm [of 3] fm [of 2] fm [of 1] by (auto simp: matrixA_def)
    next
      case 4 then show ?thesis
        using True assms(3) fm [of 3] fm [of 2] fm [of 1] by (auto simp: matrixA_def)
    qed
  next
    case False
    then have "c \<noteq> colidx g 3 r" "c \<noteq> colidx g 2 r" "c \<noteq> colidx g 1 r" "c \<noteq> colidx g 0 r"
      using fm [of 3] fm [of 2] fm [of 1] fm [of 0] by auto
    then show ?thesis using False assms(3) by (simp add: matrixA_def)
  qed
qed

lemma linked_rows_matrixA:
  assumes "wf_geom g" "c < NC g"
  shows "linked_rows (matrixA g (NR g)) c (NR g) = col_nodes g c"
proof -
  have nz: "0 < nd r f" for r f by (simp add: nd_def)
  have "filter (\<lambda>i. matrixA g (NR g) (i, c) \<noteq> 0) [0..<NR g] = rows_of g c"
    unfolding rows_of_def
    by (rule filter_cong) (simp_all add: matrixA_col [OF assms] nz)
  moreover have "map (\<lambda>i. matrixA g (NR g) (i, c)) (rows_of g c) = col_nodes g c"
    unfolding col_nodes_def
    by (rule map_cong) (auto simp: rows_of_def matrixA_col [OF assms])
  ultimately show ?thesis by (simp add: linked_rows_def)
qed

lemma fam_less: "c < NC g \<Longrightarrow> fam g c < 4"
  unfolding fam_def NC_def by (simp add: less_mult_imp_div_less)

lemma col_nodes_set:
  "set (col_nodes g c) = {nd r (fam g c) | r. r < NR g \<and> colidx g (fam g c) r = c}"
  by (auto simp: col_nodes_def rows_of_def)

lemma col_nodes_bound: "p \<in> set (col_nodes g c) \<Longrightarrow> c < NC g \<Longrightarrow> 2 \<le> p \<and> p < hdr g 0"
  using fam_less [of c g] by (auto simp: col_nodes_set nd_def hdr_def)

lemma col_nodes_disjoint:
  assumes "c < NC g" "c' < NC g" "c \<noteq> c'"
  shows "set (col_nodes g c) \<inter> set (col_nodes g c') = {}"
proof -
  have "False" if "nd r (fam g c) = nd r' (fam g c')" "colidx g (fam g c) r = c"
    "colidx g (fam g c') r' = c'" for r r'
    using that nd_inj [OF fam_less [OF assms(1)] fam_less [OF assms(2)], of r r'] assms(3)
    by auto
  then show ?thesis unfolding col_nodes_set by blast
qed

lemma col_nodes_distinct: "c < NC g \<Longrightarrow> distinct (col_nodes g c)"
  unfolding col_nodes_def distinct_map
  using nd_inj [OF fam_less fam_less, of c g c g]
  by (auto simp: rows_of_def inj_on_def)

lemma col_nodes_nonempty: "wf_geom g \<Longrightarrow> c < NC g \<Longrightarrow> col_nodes g c \<noteq> []"
  using column_nonempty [of g c] by (auto simp: col_nodes_def rows_of_def fam_def filter_empty_conv)

lemma hdr_facts:
  "hdr g c \<noteq> 0" "hdr g c \<noteq> 1" "hdr g c = hdr g c' \<longleftrightarrow> c = c'"
  "f < 4 \<Longrightarrow> r < NR g \<Longrightarrow> nd r f \<noteq> hdr g c" "nd r f \<noteq> 0" "nd r f \<noteq> 1"
  "hdr g (Suc c) = Suc (hdr g c)"
  by (simp_all add: hdr_def nd_def)

lemma upt_hdr_distinct: "distinct (1 # map (hdr g) [0..<J])"
  by (auto simp: distinct_map inj_on_def hdr_def)

lemma link_column_step:
  assumes wf: "wf_geom g" and J: "J < NC g" and ok: "fields_ok g s"
    and fr: "fresh s = hdr g J" and inv: "cols_linked g (store s) J"
  shows "\<exists>h'. link_columns (matrixA g (NR g)) (J # js) s
             = link_columns (matrixA g (NR g)) js (s\<lparr>store := h', fresh := hdr g (Suc J)\<rparr>)
           \<and> cols_linked g h' (Suc J)"
proof -
  let ?m = "matrixA g (NR g)"
  let ?hp = "hdr g J"
  let ?h0 = "store s"
  let ?ns = "col_nodes g J"
  define ha where "ha = set_col_header (set_right (set_left (set_bottom (set_top
      (set_header (?h0(?hp := Node0)) ?hp True) ?hp ?hp) ?hp ?hp) ?hp ?hp) ?hp ?hp) ?hp ?hp"
  have ha_other: "ha p = ?h0 p" if "p \<noteq> ?hp" for p
    using that unfolding ha_def by (simp add: set_apply_other)
  have ha_hp: "header_n (ha ?hp)" "top_n (ha ?hp) = ?hp" "bottom_n (ha ?hp) = ?hp"
    "col_header_n (ha ?hp) = ?hp"
    unfolding ha_def by simp_all
  have nsb: "2 \<le> p \<and> p < hdr g 0" if "p \<in> set ?ns" for p
    using that J by (rule col_nodes_bound)
  have ns_hp: "?hp \<notin> set ?ns" using nsb [of ?hp] by (auto simp: hdr_def)
  \<comment> \<open>the loop over the rows\<close>
  have pre1: "vpath ha ?hp [] ?hp" using ha_hp by (simp add: fB_def fT_def)
  have mval: "?m (i, J) = (if colidx g (fam g J) i = J then nd i (fam g J) else 0)"
    if "i < NR g" for i
    using wf J that by (rule matrixA_col)
  have f4: "fam g J < 4" using J by (rule fam_less)
  have pre2: "\<forall>i<NR g. ?m (i, J) \<noteq> ?hp"
    using mval f4 by (auto simp: hdr_def nd_def NR_def)
  have pre3: "\<forall>i<NR g. \<forall>i'<NR g. ?m (i, J) \<noteq> 0 \<longrightarrow> ?m (i, J) = ?m (i', J) \<longrightarrow> i = i'"
    using mval nd_inj [OF f4 f4] by (auto simp: nd_def split: if_splits)
  from link_loop [OF pre1 pre2 pre3] obtain h1 where
    loop: "fold (link_cell ?m ?hp J) [0..<NR g] (ha, ?hp) = (h1, lastp ?hp ?ns)"
    and v1: "vpath h1 ?hp ?ns ?hp" and lf: "link_frame ha h1 ?hp ?ns"
    unfolding linked_rows_matrixA [OF wf J] by blast
  have h1_other: "h1 p = ?h0 p" if "p \<notin> set (?hp # ?ns)" for p
    using lf that ha_other [of p] by (simp add: link_frame_def)
  have h1_lr: "left_n (h1 p) = left_n (ha p)" "right_n (h1 p) = right_n (ha p)"
    "header_n (h1 p) = header_n (ha p)" "row_n (h1 p) = row_n (ha p)"
    "col_n (h1 p) = col_n (ha p)" "value_n (h1 p) = value_n (ha p)" for p
    using lf by (simp_all add: link_frame_def)
  have ne: "?ns \<noteq> []" using wf J by (rule col_nodes_nonempty)
  have "bottom_n (h1 ?hp) = firstp ?ns ?hp"
    using dpath_nx_first [OF v1] by (simp add: fB_def)
  moreover have "firstp ?ns ?hp \<in> set ?ns" using ne by (cases ?ns) auto
  ultimately have nonempty: "bottom_n (h1 ?hp) \<noteq> ?hp" using ns_hp by auto
  \<comment> \<open>the header joins the ring of headers\<close>
  let ?hs = "map (hdr g) [0..<J]"
  have hp_hs: "?hp \<notin> set (1 # ?hs)" by (auto simp: hdr_def)
  have h1_old: "right_n (h1 p) = right_n (?h0 p) \<and> left_n (h1 p) = left_n (?h0 p)"
    if "p \<in> set (1 # ?hs)" for p
  proof -
    have "p \<noteq> ?hp" using that hp_hs by auto
    then have "ha p = ?h0 p" by (rule ha_other)
    then show ?thesis using h1_lr by simp
  qed
  have "hpath ?h0 1 ?hs 1" using inv by (simp add: cols_linked_def)
  moreover have "\<forall>p\<in>set (1 # ?hs). fR h1 p = fR ?h0 p"
    using h1_old by (simp add: fR_def)
  moreover have "\<forall>p\<in>set (?hs @ [1]). fL h1 p = fL ?h0 p"
    using h1_old by (simp add: fL_def)
  ultimately have hp1: "hpath h1 1 ?hs 1" using dpath_cong by blast
  have "0 \<notin> set (1 # ?hs)" by (auto simp: hdr_def)
  moreover have "header_n (h1 ?hp)" using h1_lr ha_hp by simp
  ultimately obtain h2 where
    cc: "create_col h1 1 ?hp = Some (True, h2)" and hp2: "hpath h2 1 (?hs @ [?hp]) 1"
    and h2: "h2 = set_right (set_left (set_right (set_left h1 1 ?hp) ?hp 1) ?hp
                 (lastp 1 ?hs)) (lastp 1 ?hs) ?hp"
    using create_col_append [OF hp1 upt_hdr_distinct hp_hs] hdr_facts(1) by blast
  have l_in: "lastp 1 ?hs \<in> set (1 # ?hs)" by (rule lastp_in)
  have h2_v: "fB h2 = fB h1" "fT h2 = fT h1" unfolding h2 by simp_all
  have h2_f: "header_n (h2 p) = header_n (h1 p)" "row_n (h2 p) = row_n (h1 p)"
    "col_n (h2 p) = col_n (h1 p)" "value_n (h2 p) = value_n (h1 p)"
    "col_header_n (h2 p) = col_header_n (h1 p)" "top_n (h2 p) = top_n (h1 p)"
    "bottom_n (h2 p) = bottom_n (h1 p)" for p
    unfolding h2 by simp_all
  have h2_nd: "left_n (h2 (nd r f)) = left_n (h1 (nd r f))"
    "right_n (h2 (nd r f)) = right_n (h1 (nd r f))" if "r < NR g" "f < 4" for r f
  proof -
    have "nd r f \<noteq> 1" "nd r f \<noteq> ?hp" "nd r f \<noteq> lastp 1 ?hs"
      using that l_in by (auto simp: nd_def hdr_def)
    then show "left_n (h2 (nd r f)) = left_n (h1 (nd r f))"
      "right_n (h2 (nd r f)) = right_n (h1 (nd r f))"
      unfolding h2 by simp_all
  qed
  \<comment> \<open>the step of \<open>link_columns\<close>\<close>
  have rows: "nat (MAX_ROWS_s s) = NR g" and root: "root_s s = 1"
    using ok by (simp_all add: fields_ok_def)
  have ord: "s\<lparr>fresh := Suc (hdr g J), store := h2\<rparr> = s\<lparr>store := h2, fresh := Suc (hdr g J)\<rparr>"
    by simp
  have step: "link_columns ?m (J # js) s
      = link_columns ?m js (s\<lparr>store := h2, fresh := hdr g (Suc J)\<rparr>)"
    using loop nonempty cc fr
    by (simp add: alloc_def Let_def rows root ha_def [symmetric] hdr_facts(7) ord)
  \<comment> \<open>the invariant\<close>
  have i1: "hpath h2 1 (map (hdr g) [0..<Suc J]) 1" using hp2 by simp
  have i2: "vpath h2 (hdr g c) (col_nodes g c) (hdr g c)" if "c < Suc J" for c
  proof (cases "c = J")
    case True
    then show ?thesis using v1 h2_v by simp
  next
    case False
    then have c: "c < J" using that by simp
    then have cN: "c < NC g" using J by simp
    have old: "vpath ?h0 (hdr g c) (col_nodes g c) (hdr g c)"
      using inv c by (simp add: cols_linked_def)
    have out: "p \<notin> set (?hp # ?ns)" if "p \<in> set (hdr g c # col_nodes g c)" for p
    proof -
      have "p \<noteq> ?hp" using that col_nodes_bound [OF _ cN, of p] c by (auto simp: hdr_def)
      moreover have "p \<notin> set ?ns"
        using that col_nodes_disjoint [OF cN J] c nsb [of p] by (auto simp: hdr_def)
      ultimately show ?thesis by simp
    qed
    have "\<forall>p\<in>set (hdr g c # col_nodes g c). fB h1 p = fB ?h0 p"
      using out h1_other by (simp add: fB_def)
    moreover have "\<forall>p\<in>set (col_nodes g c @ [hdr g c]). fT h1 p = fT ?h0 p"
      using out h1_other by (simp add: fT_def)
    ultimately have "vpath h1 (hdr g c) (col_nodes g c) (hdr g c)"
      using old dpath_cong by blast
    then show ?thesis using h2_v by simp
  qed
  have i3: "header_n (h2 (hdr g c)) \<and> col_header_n (h2 (hdr g c)) = hdr g c" if "c < Suc J" for c
  proof (cases "c = J")
    case True
    have "col_header_n (h1 ?hp) = ?hp" using lf ha_hp by (simp add: link_frame_def)
    then show ?thesis using True h2_f h1_lr ha_hp by simp
  next
    case False
    then have c: "c < J" using that by simp
    have "hdr g c \<notin> set (?hp # ?ns)" using nsb [of "hdr g c"] c by (auto simp: hdr_def)
    then have "h1 (hdr g c) = ?h0 (hdr g c)" by (rule h1_other)
    then show ?thesis using inv c h2_f by (simp add: cols_linked_def)
  qed
  have rf0: "row_fields g ?h0" using inv by (simp add: cols_linked_def)
  have i4: "row_fields g h2"
    unfolding row_fields_def
  proof (intro allI impI)
    fix r f assume r: "r < NR g" and f: "f < (4::nat)"
    have "nd r f \<noteq> ?hp" using r f by (simp add: hdr_facts)
    then have "ha (nd r f) = ?h0 (nd r f)" by (rule ha_other)
    then show "row_n (h2 (nd r f)) = int (ri g r) \<and> col_n (h2 (nd r f)) = int (rj g r)
      \<and> value_n (h2 (nd r f)) = int (rk g r) \<and> \<not> header_n (h2 (nd r f))
      \<and> left_n (h2 (nd r f)) = nd r ((f + 3) mod 4)
      \<and> right_n (h2 (nd r f)) = nd r ((f + 1) mod 4)"
      using rf0 r f h2_f h2_nd [OF r f] h1_lr by (simp add: row_fields_def)
  qed
  have i5: "col_header_n (h2 (nd r f)) = hdr g (colidx g f r)"
    if "r < NR g" "f < 4" "colidx g f r < Suc J" for r f
  proof (cases "colidx g f r = J")
    case True
    have "fam g J = f" using colidx_family(2) [OF wf that(1,2)] True by (simp add: fam_def)
    then have "nd r f \<in> set ?ns" using True that(1) by (auto simp: col_nodes_set)
    then have "col_header_n (h1 (nd r f)) = ?hp" using lf by (simp add: link_frame_def)
    then show ?thesis using True h2_f by simp
  next
    case False
    then have c: "colidx g f r < J" using that(3) by simp
    have "nd r f \<notin> set ?ns"
    proof
      assume "nd r f \<in> set ?ns"
      then obtain r' where "nd r f = nd r' (fam g J)" "colidx g (fam g J) r' = J"
        by (auto simp: col_nodes_set)
      then show False using nd_inj [OF that(2) f4, of r r'] False by auto
    qed
    moreover have "nd r f \<noteq> ?hp" using that by (simp add: hdr_facts)
    ultimately have "h1 (nd r f) = ?h0 (nd r f)" by (intro h1_other) simp
    then show ?thesis using inv c that h2_f by (simp add: cols_linked_def)
  qed
  have "1 \<notin> set (?hp # ?ns)" using nsb [of 1] by (auto simp: hdr_def)
  then have "h1 1 = ?h0 1" by (rule h1_other)
  then have i6: "header_n (h2 1) \<and> top_n (h2 1) = 1 \<and> bottom_n (h2 1) = 1"
    using inv h2_f by (simp add: cols_linked_def)
  have "cols_linked g h2 (Suc J)"
    unfolding cols_linked_def using i1 i2 i3 i4 i5 i6 by blast
  then show ?thesis using step by blast
qed

lemma link_columns_all:
  assumes wf: "wf_geom g" and ok: "fields_ok g s"
    and "J \<le> NC g" and "fresh s = hdr g J" and "cols_linked g (store s) J"
  shows "\<exists>h'. link_columns (matrixA g (NR g)) [J..<NC g] s
             = Some (True, s\<lparr>store := h', fresh := hdr g (NC g)\<rparr>)
           \<and> cols_linked g h' (NC g)"
  using assms(3-5) ok
proof (induction "NC g - J" arbitrary: J s)
  case 0
  then have "J = NC g" by simp
  moreover have "s\<lparr>store := store s, fresh := fresh s\<rparr> = s" by simp
  ultimately show ?case using 0 by (metis link_columns.simps(1) upt_rec less_irrefl)
next
  case (Suc k)
  then have J: "J < NC g" by simp
  from link_column_step [OF wf J Suc.prems(4,2,3), of "[Suc J..<NC g]"] obtain h1 where
    st: "link_columns (matrixA g (NR g)) (J # [Suc J..<NC g]) s
          = link_columns (matrixA g (NR g)) [Suc J..<NC g]
              (s\<lparr>store := h1, fresh := hdr g (Suc J)\<rparr>)"
    and inv: "cols_linked g h1 (Suc J)"
    by blast
  let ?s1 = "s\<lparr>store := h1, fresh := hdr g (Suc J)\<rparr>"
  have k: "k = NC g - Suc J" using Suc.hyps(2) by simp
  have "\<exists>h'. link_columns (matrixA g (NR g)) [Suc J..<NC g] ?s1
             = Some (True, ?s1\<lparr>store := h', fresh := hdr g (NC g)\<rparr>)
           \<and> cols_linked g h' (NC g)"
    using J inv Suc.prems(4) by (intro Suc.hyps(1) [OF k]) simp_all
  then obtain h' where
    r: "link_columns (matrixA g (NR g)) [Suc J..<NC g] ?s1
             = Some (True, ?s1\<lparr>store := h', fresh := hdr g (NC g)\<rparr>)"
    and c: "cols_linked g h' (NC g)"
    by blast
  have "[J..<NC g] = J # [Suc J..<NC g]" using J by (rule upt_conv_Cons)
  then show ?case using st r c by auto
qed

lemma storeA_fields:
  assumes "r < NR g" "f < 4"
  shows "storeA g h0 (NR g) (nd r f) = cell_node g r f"
  using assms nd_inv [OF assms(2), of r] by (simp add: storeA_def nd_def)

lemma cols_linked_0:
  assumes "fresh_solver s"
  shows "cols_linked g (storeA g (store s) (NR g)) 0"
proof -
  have r: "storeA g (store s) (NR g) 1 = store s 1" by (simp add: storeA_def)
  have "row_fields g (storeA g (store s) (NR g))"
    unfolding row_fields_def by (simp add: storeA_fields cell_node_def Node3_def)
  then show ?thesis
    using assms r by (simp add: cols_linked_def fresh_solver_def fR_def fL_def)
qed

lemma init_build_eq:
  assumes "wf_geom g" "fields_ok g s" "fresh_solver s"
  shows "\<exists>h'. init_build s = Some (True, s\<lparr>store := h', fresh := hdr g (NC g)\<rparr>)
           \<and> cols_linked g h' (NC g)"
proof -
  let ?s1 = "s\<lparr>store := storeA g (store s) (NR g), fresh := 2 + 4 * NR g\<rparr>"
  have f2: "fresh s = 2" using assms(3) by (simp add: fresh_solver_def)
  have cells: "init_cells s = (matrixA g (NR g), ?s1)"
    using assms(2) f2 by (rule init_cells_eq)
  have cols: "nat (MAX_COLS_s s) = NC g" using assms(2) by (simp add: fields_ok_def)
  have "\<exists>h'. link_columns (matrixA g (NR g)) [0..<NC g] ?s1
             = Some (True, ?s1\<lparr>store := h', fresh := hdr g (NC g)\<rparr>)
           \<and> cols_linked g h' (NC g)"
    using assms cols_linked_0 [OF assms(3), of g]
    by (intro link_columns_all) (simp_all add: hdr_def)
  then show ?thesis
    unfolding init_build_def cells by (auto simp: cols)
qed

lemma cols_linked_pristine: "wf_geom g \<Longrightarrow> cols_linked g h (NC g) \<Longrightarrow> pristine g h"
  unfolding pristine_def rep_def static_ok_def cols_linked_def live_cols_def live_nodes_def
    col_nodes_def
  using colidx_family(1) [of g] by simp


lemma link_columns_rows:
  "link_columns m js s = Some (b, s') \<Longrightarrow> MAX_ROWS_s s' = MAX_ROWS_s s"
proof (induction js arbitrary: s)
  case Nil
  then show ?case by simp
next
  case (Cons j js)
  then show ?case
    by (auto simp: Let_def alloc_def split: prod.splits if_splits option.splits)
qed


lemma fresh_solver_ExactCoverSolver: "fresh_solver ExactCoverSolver"
  by (simp add: fresh_solver_def ExactCoverSolver_def Node0_def)

lemma fresh_solver_upd [simp]:
  "fresh_solver (s\<lparr>GRID_SIZE_s := a\<rparr>) = fresh_solver s"
  "fresh_solver (s\<lparr>ROW_OFFSET_s := a\<rparr>) = fresh_solver s"
  "fresh_solver (s\<lparr>COL_OFFSET_s := a\<rparr>) = fresh_solver s"
  "fresh_solver (s\<lparr>CELL_OFFSET_s := a\<rparr>) = fresh_solver s"
  "fresh_solver (s\<lparr>BOX_OFFSET_s := a\<rparr>) = fresh_solver s"
  "fresh_solver (s\<lparr>MAX_COLS_s := a\<rparr>) = fresh_solver s"
  "fresh_solver (s\<lparr>MAX_ROWS_s := a\<rparr>) = fresh_solver s"
  "fresh_solver (s\<lparr>COL_BOX_DIV_s := a\<rparr>) = fresh_solver s"
  "fresh_solver (s\<lparr>ROW_BOX_DIV_s := a\<rparr>) = fresh_solver s"
  by (simp_all add: fresh_solver_def)

lemma init_sized:
  "init s0 grid_size =
     (if grid_size = 9 then init_build (sized s0 9 3 3)
      else if grid_size = 10 then init_build (sized s0 10 2 5)
      else if grid_size = 12 then init_build (sized s0 12 4 3)
      else if grid_size = 16 then init_build (sized s0 16 4 4)
      else Some (False, s0\<lparr>GRID_SIZE_s := grid_size, ROW_OFFSET_s := 0,
                 COL_OFFSET_s := grid_size * grid_size,
                 CELL_OFFSET_s := grid_size * grid_size * 2,
                 BOX_OFFSET_s := grid_size * grid_size * 3,
                 MAX_COLS_s := grid_size * grid_size * 4,
                 MAX_ROWS_s := grid_size * grid_size * grid_size\<rparr>))"
  by (simp add: init_def sized_def Let_def)

lemma sized_ok:
  assumes "root_s s = 1" "0 \<le> n" "0 \<le> cd" "0 \<le> rd"
  shows "fields_ok \<lparr>gN = nat n, gR = nat rd, gC = nat cd\<rparr> (sized s n cd rd)"
  using assms
  by (simp add: fields_ok_def sized_def NC_def NR_def nat_mult_distrib)

lemma sized_geom [simp]:
  "0 \<le> n \<Longrightarrow> geom_of (sized s n cd rd) = \<lparr>gN = nat n, gR = nat rd, gC = nat cd\<rparr>"
  by (simp add: geom_of_def sized_def)

lemma geom_of_upd [simp]:
  "geom_of (s\<lparr>store := h, fresh := a\<rparr>) = geom_of s"
  "geom_of (s\<lparr>store := h\<rparr>) = geom_of s"
  by (simp_all add: geom_of_def)

lemma init_build_sized:
  assumes "fresh_solver s" "wf_geom \<lparr>gN = nat n, gR = nat rd, gC = nat cd\<rparr>"
    "0 \<le> n" "0 \<le> cd" "0 \<le> rd"
  shows "\<exists>s'. init_build (sized s n cd rd) = Some (True, s')
           \<and> pristine \<lparr>gN = nat n, gR = nat rd, gC = nat cd\<rparr> (store s')
           \<and> geom_of s' = \<lparr>gN = nat n, gR = nat rd, gC = nat cd\<rparr>
           \<and> fields_ok \<lparr>gN = nat n, gR = nat rd, gC = nat cd\<rparr> s'
           \<and> GRID_SIZE_s s' = n \<and> COL_BOX_DIV_s s' = cd \<and> ROW_BOX_DIV_s s' = rd
           \<and> running_sol_s s' = running_sol_s s \<and> solved_s s' = solved_s s
           \<and> printed s' = printed s"
proof -
  let ?g = "\<lparr>gN = nat n, gR = nat rd, gC = nat cd\<rparr>"
  have r: "root_s s = 1" using assms(1) by (simp add: fresh_solver_def)
  have ok: "fields_ok ?g (sized s n cd rd)" using r assms(3-5) by (rule sized_ok)
  have fs: "fresh_solver (sized s n cd rd)" using assms(1) by (simp add: sized_def)
  from init_build_eq [OF assms(2) ok fs] obtain h' where
    b: "init_build (sized s n cd rd)
        = Some (True, sized s n cd rd\<lparr>store := h', fresh := hdr ?g (NC ?g)\<rparr>)"
    and c: "cols_linked ?g h' (NC ?g)"
    by blast
  have "pristine ?g h'" using assms(2) c by (rule cols_linked_pristine)
  then show ?thesis
    using b ok assms(3) by (auto simp: sized_def geom_of_def)
qed

lemma wf_supported:
  "wf_geom \<lparr>gN = nat 9, gR = nat 3, gC = nat 3\<rparr>"
  "wf_geom \<lparr>gN = nat 10, gR = nat 5, gC = nat 2\<rparr>"
  "wf_geom \<lparr>gN = nat 12, gR = nat 3, gC = nat 4\<rparr>"
  "wf_geom \<lparr>gN = nat 16, gR = nat 4, gC = nat 4\<rparr>"
  by (simp_all add: wf_geom_def)

lemma init_supported:
  assumes "fresh_solver s0" "supported n"
  shows "\<exists>s. init s0 n = Some (True, s)
           \<and> pristine (geom_of s) (store s) \<and> wf_geom (geom_of s)
           \<and> fields_ok (geom_of s) s
           \<and> GRID_SIZE_s s = n \<and> (COL_BOX_DIV_s s, ROW_BOX_DIV_s s) = box_divs n
           \<and> running_sol_s s = running_sol_s s0 \<and> solved_s s = solved_s s0
           \<and> printed s = printed s0"
proof -
  from assms(2) consider "n = 9" | "n = 10" | "n = 12" | "n = 16"
    unfolding supported_def by blast
  then show ?thesis
  proof cases
    case 1
    from init_build_sized [OF assms(1) wf_supported(1)] show ?thesis
      unfolding 1 init_sized using wf_supported(1) by (auto simp: box_divs_def)
  next
    case 2
    from init_build_sized [OF assms(1) wf_supported(2)] show ?thesis
      unfolding 2 init_sized using wf_supported(2) by (auto simp: box_divs_def)
  next
    case 3
    from init_build_sized [OF assms(1) wf_supported(3)] show ?thesis
      unfolding 3 init_sized using wf_supported(3) by (auto simp: box_divs_def)
  next
    case 4
    from init_build_sized [OF assms(1) wf_supported(4)] show ?thesis
      unfolding 4 init_sized using wf_supported(4) by (auto simp: box_divs_def)
  qed
qed

lemma init_unsupported: "\<not> supported n \<Longrightarrow> \<exists>s. init s0 n = Some (False, s)"
  by (simp add: init_sized supported_def)





lemma unlink_tb_eq:
  "n \<noteq> 0 \<Longrightarrow> top_n (h n) \<noteq> 0 \<Longrightarrow> bottom_n (h n) \<noteq> 0 \<Longrightarrow> unlink_tb h n = Some (remv h n)"
  by (simp add: unlink_tb_def remv_def Let_def)

lemma relink_tb_eq:
  "n \<noteq> 0 \<Longrightarrow> top_n (h n) \<noteq> 0 \<Longrightarrow> bottom_n (h n) \<noteq> 0 \<Longrightarrow> top_n (h n) \<noteq> n \<Longrightarrow>
   relink_tb h n = Some (insv h n)"
  by (simp add: relink_tb_def insv_def Let_def)

lemma unlink_lr_eq:
  "c \<noteq> 0 \<Longrightarrow> right_n (h c) \<noteq> 0 \<Longrightarrow> left_n (h c) \<noteq> 0 \<Longrightarrow> unlink_lr h c = Some (remh h c)"
  by (simp add: unlink_lr_def remh_def Let_def)

lemma relink_lr_eq:
  "c \<noteq> 0 \<Longrightarrow> right_n (h c) \<noteq> 0 \<Longrightarrow> left_n (h c) \<noteq> 0 \<Longrightarrow> right_n (h c) \<noteq> c \<Longrightarrow>
   relink_lr h c = Some (insh h c)"
  by (simp add: relink_lr_def insh_def Let_def)

lemma remv_fields [simp]:
  "value_n (remv h n p) = value_n (h p)" "row_n (remv h n p) = row_n (h p)"
  "col_n (remv h n p) = col_n (h p)" "header_n (remv h n p) = header_n (h p)"
  "left_n (remv h n p) = left_n (h p)" "right_n (remv h n p) = right_n (h p)"
  "col_header_n (remv h n p) = col_header_n (h p)"
  by (simp_all add: remv_def)

lemma insv_fields [simp]:
  "value_n (insv h n p) = value_n (h p)" "row_n (insv h n p) = row_n (h p)"
  "col_n (insv h n p) = col_n (h p)" "header_n (insv h n p) = header_n (h p)"
  "left_n (insv h n p) = left_n (h p)" "right_n (insv h n p) = right_n (h p)"
  "col_header_n (insv h n p) = col_header_n (h p)"
  by (simp_all add: insv_def)

lemma remh_fields [simp]:
  "value_n (remh h n p) = value_n (h p)" "row_n (remh h n p) = row_n (h p)"
  "col_n (remh h n p) = col_n (h p)" "header_n (remh h n p) = header_n (h p)"
  "top_n (remh h n p) = top_n (h p)" "bottom_n (remh h n p) = bottom_n (h p)"
  "col_header_n (remh h n p) = col_header_n (h p)"
  by (simp_all add: remh_def)

lemma insh_fields [simp]:
  "value_n (insh h n p) = value_n (h p)" "row_n (insh h n p) = row_n (h p)"
  "col_n (insh h n p) = col_n (h p)" "header_n (insh h n p) = header_n (h p)"
  "top_n (insh h n p) = top_n (h p)" "bottom_n (insh h n p) = bottom_n (h p)"
  "col_header_n (insh h n p) = col_header_n (h p)"
  by (simp_all add: insh_def)

lemma remv_views [simp]:
  "fB (remv h n) = (fB h)(top_n (h n) := bottom_n (h n))"
  "fT (remv h n) = (fT h)(bottom_n (h n) := top_n (h n))"
  "fR (remv h n) = fR h" "fL (remv h n) = fL h"
  by (simp_all add: remv_def)

lemma remh_views [simp]:
  "fL (remh h c) = (fL h)(right_n (h c) := left_n (h c))"
  "fR (remh h c) = (fR h)(left_n (h c) := right_n (h c))"
  "fB (remh h c) = fB h" "fT (remh h c) = fT h"
  by (simp_all add: remh_def)

lemma insv_remv:
  assumes "good h n"
  shows "insv (remv h n) n = h"
proof (rule store_eqI)
  fix p
  have t: "top_n (remv h n n) = top_n (h n)" and b: "bottom_n (remv h n n) = bottom_n (h n)"
    using assms by (simp_all add: remv_def good_def)
  show "top_n (insv (remv h n) n p) = top_n (h p)"
    using assms unfolding insv_def t b by (auto simp: remv_def good_def)
  show "bottom_n (insv (remv h n) n p) = bottom_n (h p)"
    using assms unfolding insv_def t b by (auto simp: remv_def good_def)
qed simp_all

lemma insh_remh:
  assumes "goodh h c"
  shows "insh (remh h c) c = h"
proof (rule store_eqI)
  fix p
  have t: "left_n (remh h c c) = left_n (h c)" and b: "right_n (remh h c c) = right_n (h c)"
    using assms by (simp_all add: remh_def goodh_def)
  show "left_n (insh (remh h c) c p) = left_n (h p)"
    using assms unfolding insh_def t b by (auto simp: remh_def goodh_def)
  show "right_n (insh (remh h c) c p) = right_n (h p)"
    using assms unfolding insh_def t b by (auto simp: remh_def goodh_def)
qed simp_all

lemma insv_linked:
  assumes "good h n"
  shows "insv h n = h"
proof (rule store_eqI)
  fix p
  show "top_n (insv h n p) = top_n (h p)"
    using assms unfolding insv_def by (auto simp: good_def)
  show "bottom_n (insv h n p) = bottom_n (h p)"
    using assms unfolding insv_def by (auto simp: good_def)
qed simp_all

lemma fold_insv_remv:
  "goods h ns \<Longrightarrow> fold (\<lambda>n h. insv h n) (rev ns) (fold (\<lambda>n h. remv h n) ns h) = h"
proof (induction ns arbitrary: h)
  case Nil
  then show ?case by simp
next
  case (Cons n ns)
  then have "fold (\<lambda>n h. insv h n) (rev ns) (fold (\<lambda>n h. remv h n) ns (remv h n)) = remv h n"
    by simp
  then show ?case using Cons.prems by (simp add: insv_remv)
qed

lemma unlink_good: "good h n \<Longrightarrow> unlink_tb h n = Some (remv h n)"
  by (simp add: unlink_tb_eq good_def)

lemma relink_good:
  assumes "good h n"
  shows "relink_tb (remv h n) n = Some h"
proof -
  have t: "top_n (remv h n n) = top_n (h n)" and b: "bottom_n (remv h n n) = bottom_n (h n)"
    using assms by (simp_all add: remv_def good_def)
  have "relink_tb (remv h n) n = Some (insv (remv h n) n)"
    by (rule relink_tb_eq) (use assms in \<open>simp_all add: t b good_def\<close>)
  then show ?thesis by (simp add: insv_remv assms)
qed

lemma unlink_goodh: "goodh h c \<Longrightarrow> unlink_lr h c = Some (remh h c)"
  by (simp add: unlink_lr_eq goodh_def)

lemma relink_goodh:
  assumes "goodh h c"
  shows "relink_lr (remh h c) c = Some h"
proof -
  have t: "left_n (remh h c c) = left_n (h c)" and b: "right_n (remh h c c) = right_n (h c)"
    using assms by (simp_all add: remh_def goodh_def)
  have "relink_lr (remh h c) c = Some (insh (remh h c) c)"
    by (rule relink_lr_eq) (use assms in \<open>simp_all add: t b goodh_def\<close>)
  then show ?thesis by (simp add: insh_remh assms)
qed

lemma goods_append: "goods h (xs @ ys) = (goods h xs \<and> goods (fold (\<lambda>n h. remv h n) xs h) ys)"
  by (induction xs arbitrary: h) auto

lemma hdr_not_col_node: "c < NC g \<Longrightarrow> c' < NC g \<Longrightarrow> hdr g c \<notin> set (col_nodes g c')"
proof
  assume c: "c < NC g" "c' < NC g" and "hdr g c \<in> set (col_nodes g c')"
  then have "hdr g c < hdr g 0" using col_nodes_bound by blast
  then show False by (simp add: hdr_def)
qed

lemma colmem_disjoint:
  assumes "c < NC g" "c' < NC g" "c \<noteq> c'"
  shows "colmem g c \<inter> colmem g c' = {}"
  using col_nodes_disjoint [OF assms] hdr_not_col_node [OF assms(1,2)]
    hdr_not_col_node [OF assms(2,1)] assms(3)
  by (auto simp: colmem_def hdr_facts(3))

lemma colmem_not01: "c < NC g \<Longrightarrow> 0 \<notin> colmem g c \<and> 1 \<notin> colmem g c"
  using col_nodes_bound [of 0 g c] col_nodes_bound [of 1 g c] hdr_facts(1,2) [of g c]
  by (auto simp: colmem_def)

lemma live_sub: "set (live_nodes g Q c) \<subseteq> set (col_nodes g c)"
  by (auto simp: live_nodes_def col_nodes_def)

lemma live_colmem: "set (hdr g c # live_nodes g Q c) \<subseteq> colmem g c"
  using live_sub [of g Q c] by (auto simp: colmem_def)

lemma live_distinct: "c < NC g \<Longrightarrow> distinct (hdr g c # live_nodes g Q c)"
proof -
  assume c: "c < NC g"
  have "distinct (map (\<lambda>r. nd r (fam g c)) (rows_of g c))"
    using col_nodes_distinct [OF c] by (simp add: col_nodes_def)
  then have "distinct (live_nodes g Q c)"
    unfolding live_nodes_def by (rule distinct_map_filter)
  moreover have "hdr g c \<notin> set (live_nodes g Q c)"
    using hdr_not_col_node [OF c c] live_sub [of g Q c] by blast
  ultimately show ?thesis by simp
qed

lemma filter_split:
  assumes "distinct L" "r \<in> set L" "P r"
  shows "\<exists>xs ys. filter P L = xs @ r # ys \<and> filter (\<lambda>x. P x \<and> x \<noteq> r) L = xs @ ys"
proof -
  obtain as bs where L: "L = as @ r # bs" using split_list [OF assms(2)] by blast
  have n: "r \<notin> set as" "r \<notin> set bs" using assms(1) L by auto
  have a: "filter (\<lambda>x. P x \<and> x \<noteq> r) as = filter P as"
    by (rule filter_cong) (use n in auto)
  have b: "filter (\<lambda>x. P x \<and> x \<noteq> r) bs = filter P bs"
    by (rule filter_cong) (use n in auto)
  have "filter P L = filter P as @ r # filter P bs"
    and "filter (\<lambda>x. P x \<and> x \<noteq> r) L = filter P as @ filter P bs"
    using assms(3) by (simp_all add: L a b)
  then show ?thesis by blast
qed

lemma live_split:
  assumes "r \<in> set (rows_of g c)" "r \<notin> Q c" "Q' c = insert r (Q c)"
  shows "\<exists>xs ys. live_nodes g Q c = xs @ nd r (fam g c) # ys \<and> live_nodes g Q' c = xs @ ys"
proof -
  have d: "distinct (rows_of g c)" by (simp add: rows_of_def)
  obtain xs ys where f: "filter (\<lambda>x. x \<notin> Q c) (rows_of g c) = xs @ r # ys"
    "filter (\<lambda>x. x \<notin> Q c \<and> x \<noteq> r) (rows_of g c) = xs @ ys"
    using filter_split [OF d assms(1), of "\<lambda>x. x \<notin> Q c"] assms(2) by blast
  have e: "filter (\<lambda>x. x \<notin> Q' c) (rows_of g c) = filter (\<lambda>x. x \<notin> Q c \<and> x \<noteq> r) (rows_of g c)"
    by (rule filter_cong) (auto simp: assms(3))
  have "live_nodes g Q c = map (\<lambda>r. nd r (fam g c)) xs @ nd r (fam g c) # map (\<lambda>r. nd r (fam g c)) ys"
    and "live_nodes g Q' c = map (\<lambda>r. nd r (fam g c)) xs @ map (\<lambda>r. nd r (fam g c)) ys"
    unfolding live_nodes_def e f by simp_all
  then show ?thesis by blast
qed

lemma row_in_rows_of:
  assumes "wf_geom g" "r < NR g" "f < 4"
  shows "fam g (colidx g f r) = f" and "r \<in> set (rows_of g (colidx g f r))"
proof -
  show a: "fam g (colidx g f r) = f" using colidx_family(2) [OF assms] by (simp add: fam_def)
  show "r \<in> set (rows_of g (colidx g f r))" using assms(2) by (simp add: rows_of_def a)
qed

lemma dpath_mid2:
  "dpath nx pv a (xs @ n # ys) b \<Longrightarrow> nx (lastp a xs) = n \<and> pv (firstp ys b) = n"
  using dpath_nx_last [of nx pv a xs n] dpath_pv_first [of nx pv n ys b]
  by (simp add: dpath_app)

lemma static_ok_remv: "c < NC g \<Longrightarrow> top_n (h n) \<in> colmem g c \<Longrightarrow> bottom_n (h n) \<in> colmem g c
   \<Longrightarrow> static_ok g (remv h n) = static_ok g h"
  using colmem_not01 [of c g]
  by (auto simp: static_ok_def row_fields_def remv_def)

lemma remv_rep:
  assumes rp: "rep g h C Q" and wf: "wf_geom g" and r: "r < NR g" and f: "f < 4"
    and live: "r \<notin> Q (colidx g f r)"
    and Q': "Q' = Q(colidx g f r := insert r (Q (colidx g f r)))"
  shows "rep g (remv h (nd r f)) C Q'" and "good h (nd r f)"
proof -
  define c where "c = colidx g f r"
  define n where "n = nd r f"
  have c: "c < NC g" and fc: "fam g c = f" and rc: "r \<in> set (rows_of g c)"
    using colidx_family(1) [OF wf r f] row_in_rows_of [OF wf r f] by (simp_all add: c_def)
  have Qc: "Q' c = insert r (Q c)" by (simp add: Q' c_def)
  obtain xs ys where L: "live_nodes g Q c = xs @ n # ys" and L': "live_nodes g Q' c = xs @ ys"
    using live_split [of r g c Q Q'] rc Qc live fc by (auto simp: c_def n_def)
  have vp: "vpath h (hdr g c) (xs @ n # ys) (hdr g c)"
    using rp c by (simp add: rep_def L [symmetric])
  have di: "distinct (hdr g c # xs @ n # ys)" using live_distinct [OF c, of Q] by (simp add: L)
  have tb: "bottom_n (h n) = firstp ys (hdr g c)" "top_n (h n) = lastp (hdr g c) xs"
    using dpath_mid [OF vp] by (simp_all add: fB_def fT_def)
  have tb2: "bottom_n (h (lastp (hdr g c) xs)) = n" "top_n (h (firstp ys (hdr g c))) = n"
    using dpath_mid2 [OF vp] by (simp_all add: fB_def fT_def)
  have mem: "set (hdr g c # xs @ n # ys) \<subseteq> colmem g c"
    using live_colmem [of g c Q] by (simp add: L)
  have tin: "top_n (h n) \<in> set (hdr g c # xs)" unfolding tb by (rule lastp_in)
  have bin: "bottom_n (h n) \<in> set (ys @ [hdr g c])" unfolding tb by (rule firstp_in)
  have tm: "top_n (h n) \<in> colmem g c" and bm: "bottom_n (h n) \<in> colmem g c"
    using tin bin mem by auto
  have nm: "n \<in> colmem g c" using mem by auto
  show "good h (nd r f)"
    unfolding good_def n_def [symmetric]
    using tb2 tin bin di tm bm nm colmem_not01 [OF c] by (auto simp: tb)
  have st: "static_ok g (remv h n)" using rp static_ok_remv [of c g h n] c tm bm by (simp add: rep_def)
  have hp: "hpath (remv h n) 1 (live_cols g C) 1" using rp by (simp add: rep_def)
  have v1: "vpath (remv h n) (hdr g c) (xs @ ys) (hdr g c)"
    unfolding remv_views tb
    by (rule dpath_remove [OF vp]) (use di in auto)
  have v2: "vpath (remv h n) (hdr g c') (live_nodes g Q' c') (hdr g c')"
    if c': "c' < NC g" "c' \<noteq> c" for c'
  proof -
    have e: "live_nodes g Q' c' = live_nodes g Q c'" using c' by (simp add: live_nodes_def Q' c_def)
    have dj: "colmem g c \<inter> colmem g c' = {}" using colmem_disjoint [OF c c'(1)] c'(2) by blast
    have sub: "set (hdr g c' # live_nodes g Q c') \<subseteq> colmem g c'" by (rule live_colmem)
    have "vpath (remv h n) (hdr g c') (live_nodes g Q c') (hdr g c')
        = vpath h (hdr g c') (live_nodes g Q c') (hdr g c')"
    proof (rule dpath_cong)
      show "\<forall>p\<in>set (hdr g c' # live_nodes g Q c'). fB (remv h n) p = fB h p"
        using sub tm dj by (auto simp: fB_def remv_def)
      show "\<forall>p\<in>set (live_nodes g Q c' @ [hdr g c']). fT (remv h n) p = fT h p"
        using sub bm dj by (auto simp: fT_def remv_def)
    qed
    then show ?thesis using rp c' by (simp add: rep_def e)
  qed
  show "rep g (remv h (nd r f)) C Q'"
    unfolding rep_def n_def [symmetric]
    using st hp v1 v2 L' by (metis)
qed

lemma ring4:
  assumes "f0 < (4::nat)"
  shows "(f0 + 1) mod 4 < 4" "(f0 + 2) mod 4 < 4" "(f0 + 3) mod 4 < 4"
    "(f0 + 1) mod 4 \<noteq> f0" "(f0 + 2) mod 4 \<noteq> f0" "(f0 + 3) mod 4 \<noteq> f0"
    "(f0 + 1) mod 4 \<noteq> (f0 + 2) mod 4" "(f0 + 1) mod 4 \<noteq> (f0 + 3) mod 4"
    "(f0 + 2) mod 4 \<noteq> (f0 + 3) mod 4"
    "((f0 + 1) mod 4 + 1) mod 4 = (f0 + 2) mod 4" "((f0 + 2) mod 4 + 1) mod 4 = (f0 + 3) mod 4"
    "((f0 + 3) mod 4 + 1) mod 4 = f0"
    "((f0 + 3) mod 4 + 3) mod 4 = (f0 + 2) mod 4" "((f0 + 2) mod 4 + 3) mod 4 = (f0 + 1) mod 4"
    "((f0 + 1) mod 4 + 3) mod 4 = f0"
    "f < 4 \<Longrightarrow> f \<noteq> f0 \<Longrightarrow> f = (f0 + 1) mod 4 \<or> f = (f0 + 2) mod 4 \<or> f = (f0 + 3) mod 4"
proof -
  have c: "f0 = 0 \<or> f0 = 1 \<or> f0 = 2 \<or> f0 = 3" using assms by arith
  show "(f0 + 1) mod 4 < 4" "(f0 + 2) mod 4 < 4" "(f0 + 3) mod 4 < 4" by simp_all
  show "(f0 + 1) mod 4 \<noteq> f0" "(f0 + 2) mod 4 \<noteq> f0" "(f0 + 3) mod 4 \<noteq> f0"
    "(f0 + 1) mod 4 \<noteq> (f0 + 2) mod 4" "(f0 + 1) mod 4 \<noteq> (f0 + 3) mod 4"
    "(f0 + 2) mod 4 \<noteq> (f0 + 3) mod 4"
    "((f0 + 1) mod 4 + 1) mod 4 = (f0 + 2) mod 4" "((f0 + 2) mod 4 + 1) mod 4 = (f0 + 3) mod 4"
    "((f0 + 3) mod 4 + 1) mod 4 = f0"
    "((f0 + 3) mod 4 + 3) mod 4 = (f0 + 2) mod 4" "((f0 + 2) mod 4 + 3) mod 4 = (f0 + 1) mod 4"
    "((f0 + 1) mod 4 + 3) mod 4 = f0"
    using c by (elim disjE; simp)+
  show "f = (f0 + 1) mod 4 \<or> f = (f0 + 2) mod 4 \<or> f = (f0 + 3) mod 4" if "f < 4" "f \<noteq> f0"
  proof -
    have d: "f = 0 \<or> f = 1 \<or> f = 2 \<or> f = 3" using that by arith
    show ?thesis using that(2) c d by (elim disjE; simp)
  qed
qed

lemma colidx_inj_fam:
  assumes "wf_geom g" "r < NR g" "r' < NR g" "f < 4" "f' < 4" "colidx g f r = colidx g f' r'"
  shows "f = f'"
  using row_in_rows_of(1) [OF assms(1,2,4)] row_in_rows_of(1) [OF assms(1,3,5)] assms(6) by simp

lemma rep_static: "rep g h C Q \<Longrightarrow> static_ok g h"
  by (simp add: rep_def)

lemma static_right:
  "static_ok g h \<Longrightarrow> r < NR g \<Longrightarrow> f < 4 \<Longrightarrow> right_n (h (nd r f)) = nd r ((f + 1) mod 4)"
  "static_ok g h \<Longrightarrow> r < NR g \<Longrightarrow> f < 4 \<Longrightarrow> left_n (h (nd r f)) = nd r ((f + 3) mod 4)"
  by (simp_all add: static_ok_def row_fields_def)

lemma hide_rep:
  assumes rp: "rep g h C Q" and wf: "wf_geom g" and r: "r < NR g" and f0: "f0 < 4"
    and live: "\<forall>f<4. f \<noteq> f0 \<longrightarrow> r \<notin> Q (colidx g f r)"
  shows "cover_row h (nd r f0) (right_n (h (nd r f0))) = Some (hide h r f0)"
    and "rep g (hide h r f0) C (hideQ g Q r f0)"
    and "uncover_row (hide h r f0) (nd r f0) (left_n (hide h r f0 (nd r f0))) = Some h"
proof -
  define f1 f2 f3 where "f1 = (f0 + 1) mod 4" and "f2 = (f0 + 2) mod 4" and "f3 = (f0 + 3) mod 4"
  note fd = f1_def f2_def f3_def
  note R = ring4 [OF f0, folded fd]
  define c1 c2 c3 where "c1 = colidx g f1 r" and "c2 = colidx g f2 r" and "c3 = colidx g f3 r"
  note cd = c1_def c2_def c3_def
  have cne: "c1 \<noteq> c2" "c1 \<noteq> c3" "c2 \<noteq> c3"
    using colidx_inj_fam [OF wf r r, of f1 f2] colidx_inj_fam [OF wf r r, of f1 f3]
      colidx_inj_fam [OF wf r r, of f2 f3] R(1-3,7-9)
    unfolding cd by blast+
  define Q1 Q2 Q3 where "Q1 = Q(c1 := insert r (Q c1))" and "Q2 = Q1(c2 := insert r (Q1 c2))"
    and "Q3 = Q2(c3 := insert r (Q2 c3))"
  define h1 h2 where "h1 = remv h (nd r f1)" and "h2 = remv h1 (nd r f2)"
  have h3: "hide h r f0 = remv h2 (nd r f3)" by (simp add: hide_def h1_def h2_def fd)
  have l1: "r \<notin> Q c1" and l2: "r \<notin> Q1 c2" and l3: "r \<notin> Q2 c3"
    using live R(1-6) cne by (auto simp: cd Q1_def Q2_def)
  have s1: "rep g h1 C Q1" and g1: "good h (nd r f1)"
    using remv_rep [OF rp wf r R(1), of Q1] l1 by (simp_all add: h1_def Q1_def cd)
  have s2: "rep g h2 C Q2" and g2: "good h1 (nd r f2)"
    using remv_rep [OF s1 wf r R(2), of Q2] l2 by (simp_all add: h2_def Q2_def cd)
  have s3: "rep g (hide h r f0) C Q3" and g3: "good h2 (nd r f3)"
    using remv_rep [OF s2 wf r R(3), of Q3] l3 by (simp_all add: h3 Q3_def cd)
  have Qe: "Q3 = hideQ g Q r f0"
  proof (rule ext)
    fix c
    have "(\<exists>f<4. f \<noteq> f0 \<and> colidx g f r = c) \<longleftrightarrow> c = c1 \<or> c = c2 \<or> c = c3"
      using R(1-6,16) unfolding cd by blast
    then show "Q3 c = hideQ g Q r f0 c"
      using cne by (auto simp: hideQ_def Q3_def Q2_def Q1_def)
  qed
  show "rep g (hide h r f0) C (hideQ g Q r f0)" using s3 by (simp add: Qe)
  have st: "static_ok g h" by (rule rep_static [OF rp])
  have rg: "right_n (h (nd r f0)) = nd r f1" "right_n (h (nd r f1)) = nd r f2"
    "right_n (h (nd r f2)) = nd r f3" "right_n (h (nd r f3)) = nd r f0"
    using static_right(1) [OF st r] f0 R(1-3,10-12) by (simp_all add: fd)
  have lf: "left_n (h (nd r f0)) = nd r f3" "left_n (h (nd r f3)) = nd r f2"
    "left_n (h (nd r f2)) = nd r f1" "left_n (h (nd r f1)) = nd r f0"
    using static_right(2) [OF st r] f0 R(1-3,13-15) by (simp_all add: fd)
  have ne: "nd r f1 \<noteq> nd r f0" "nd r f2 \<noteq> nd r f0" "nd r f3 \<noteq> nd r f0"
    using R(4-6) by (simp_all add: nd_def fd)
  have fr: "right_n (h1 p) = right_n (h p)" "right_n (h2 p) = right_n (h p)"
    "right_n (hide h r f0 p) = right_n (h p)" "left_n (h1 p) = left_n (h p)"
    "left_n (h2 p) = left_n (h p)" "left_n (hide h r f0 p) = left_n (h p)" for p
    by (simp_all add: h1_def h2_def hide_def)
  have u1: "unlink_tb h (nd r f1) = Some h1" using unlink_good [OF g1] by (simp add: h1_def)
  have u2: "unlink_tb h1 (nd r f2) = Some h2" using unlink_good [OF g2] by (simp add: h2_def)
  have u3: "unlink_tb h2 (nd r f3) = Some (hide h r f0)" using unlink_good [OF g3] by (simp add: h3)
  have k1: "relink_tb h1 (nd r f1) = Some h" using relink_good [OF g1] by (simp add: h1_def)
  have k2: "relink_tb h2 (nd r f2) = Some h1" using relink_good [OF g2] by (simp add: h2_def)
  have k3: "relink_tb (hide h r f0) (nd r f3) = Some h2" using relink_good [OF g3] by (simp add: h3)
  have a3: "cover_row (hide h r f0) (nd r f0) (nd r f0) = Some (hide h r f0)"
    by (subst cover_row.simps) simp
  have a2: "cover_row h2 (nd r f0) (nd r f3) = Some (hide h r f0)"
    by (subst cover_row.simps) (simp add: ne u3 fr rg a3)
  have a1: "cover_row h1 (nd r f0) (nd r f2) = Some (hide h r f0)"
    by (subst cover_row.simps) (simp add: ne u2 fr rg a2)
  show "cover_row h (nd r f0) (right_n (h (nd r f0))) = Some (hide h r f0)"
    unfolding rg by (subst cover_row.simps) (simp add: ne u1 fr rg a1)
  have b0: "uncover_row h (nd r f0) (nd r f0) = Some h"
    by (subst uncover_row.simps) simp
  have b1: "uncover_row h1 (nd r f0) (nd r f1) = Some h"
    by (subst uncover_row.simps) (simp add: ne k1 fr lf b0)
  have b2: "uncover_row h2 (nd r f0) (nd r f2) = Some h"
    by (subst uncover_row.simps) (simp add: ne k2 fr lf b1)
  have "uncover_row (hide h r f0) (nd r f0) (nd r f3) = Some h"
    by (subst uncover_row.simps) (simp add: ne k3 fr lf b2)
  then show "uncover_row (hide h r f0) (nd r f0) (left_n (hide h r f0 (nd r f0))) = Some h"
    by (simp add: fr lf)
qed

lemma live_cols_distinct: "distinct (1 # live_cols g C)"
proof -
  have "distinct (map (hdr g) [0..<NC g])" and "1 \<notin> set (map (hdr g) [0..<NC g])"
    using upt_hdr_distinct [of g "NC g"] by simp_all
  moreover have "distinct (map (hdr g) (filter (\<lambda>c. c \<notin> C) [0..<NC g]))"
    by (rule distinct_map_filter) (rule calculation(1))
  ultimately show ?thesis by (auto simp: live_cols_def)
qed

lemma live_cols_split:
  assumes "c < NC g" "c \<notin> C"
  shows "\<exists>xs ys. live_cols g C = xs @ hdr g c # ys \<and> live_cols g (insert c C) = xs @ ys"
proof -
  have d: "distinct [0..<NC g]" by simp
  have m: "c \<in> set [0..<NC g]" using assms(1) by simp
  obtain xs ys where f: "filter (\<lambda>x. x \<notin> C) [0..<NC g] = xs @ c # ys"
    "filter (\<lambda>x. x \<notin> C \<and> x \<noteq> c) [0..<NC g] = xs @ ys"
    using filter_split [OF d m, of "\<lambda>x. x \<notin> C"] assms(2) by blast
  have e: "filter (\<lambda>x. x \<notin> insert c C) [0..<NC g] = filter (\<lambda>x. x \<notin> C \<and> x \<noteq> c) [0..<NC g]"
    by (rule filter_cong) auto
  have "live_cols g C = map (hdr g) xs @ hdr g c # map (hdr g) ys"
    and "live_cols g (insert c C) = map (hdr g) xs @ map (hdr g) ys"
    unfolding live_cols_def e f by simp_all
  then show ?thesis by blast
qed

lemma live_cols_mem: "p \<in> set (1 # live_cols g C) \<Longrightarrow> p = 1 \<or> (\<exists>c<NC g. p = hdr g c)"
  by (auto simp: live_cols_def)

lemma static_ok_remh:
  assumes "static_ok g h" "left_n (h n) = 1 \<or> (\<exists>c<NC g. left_n (h n) = hdr g c)"
    "right_n (h n) = 1 \<or> (\<exists>c<NC g. right_n (h n) = hdr g c)"
  shows "static_ok g (remh h n)"
proof -
  have a: "nd r f \<noteq> left_n (h n)" "nd r f \<noteq> right_n (h n)" if "r < NR g" "f < 4" for r f
    using assms(2,3) hdr_facts(4) [OF that(2,1)] hdr_facts(6) [of r f] by metis+
  show ?thesis
    using assms(1) a unfolding static_ok_def row_fields_def by (simp add: remh_def)
qed

lemma remh_rep:
  assumes rp: "rep g h C Q" and c: "c < NC g" and nc: "c \<notin> C"
  shows "rep g (remh h (hdr g c)) (insert c C) Q" and "goodh h (hdr g c)"
proof -
  define n where "n = hdr g c"
  obtain xs ys where L: "live_cols g C = xs @ n # ys" and L': "live_cols g (insert c C) = xs @ ys"
    using live_cols_split [OF c nc] by (auto simp: n_def)
  have hp: "hpath h 1 (xs @ n # ys) 1" using rp by (simp add: rep_def L)
  have di: "distinct (1 # xs @ n # ys)" using live_cols_distinct [of g C] by (simp add: L)
  have lr: "right_n (h n) = firstp ys 1" "left_n (h n) = lastp 1 xs"
    using dpath_mid [OF hp] by (simp_all add: fR_def fL_def)
  have lr2: "right_n (h (lastp 1 xs)) = n" "left_n (h (firstp ys 1)) = n"
    using dpath_mid2 [OF hp] by (simp_all add: fR_def fL_def)
  have lin: "left_n (h n) \<in> set (1 # xs)" unfolding lr by (rule lastp_in)
  have rin: "right_n (h n) \<in> set (ys @ [1])" unfolding lr by (rule firstp_in)
  have lm: "left_n (h n) = 1 \<or> (\<exists>c<NC g. left_n (h n) = hdr g c)"
    by (rule live_cols_mem [of _ g C]) (use lin L in auto)
  have rm: "right_n (h n) = 1 \<or> (\<exists>c<NC g. right_n (h n) = hdr g c)"
    by (rule live_cols_mem [of _ g C]) (use rin L in auto)
  have nz: "left_n (h n) \<noteq> 0" "right_n (h n) \<noteq> 0" "n \<noteq> 0"
    using lm rm hdr_facts(1) [of g] by (auto simp: n_def)
  show "goodh h (hdr g c)"
    unfolding goodh_def n_def [symmetric]
    using lr2 lin rin di nz by (auto simp: lr)
  have st: "static_ok g (remh h n)" by (rule static_ok_remh [OF rep_static [OF rp] lm rm])
  have h1: "hpath (remh h n) 1 (xs @ ys) 1"
    unfolding remh_views lr
    by (rule dpath_remove [OF hp]) (use di in auto)
  show "rep g (remh h (hdr g c)) (insert c C) Q"
    unfolding rep_def n_def [symmetric]
    using st h1 rp by (simp add: L' rep_def)
qed

lemma rep_vpath: "rep g h C Q \<Longrightarrow> c < NC g \<Longrightarrow> vpath h (hdr g c) (live_nodes g Q c) (hdr g c)"
  by (simp add: rep_def)

lemma hideQ_other:
  assumes "wf_geom g" "r < NR g" "f0 < 4" "colidx g f0 r = c"
  shows "hideQ g Q r f0 c = Q c"
  using colidx_inj_fam [OF assms(1,2,2) _ assms(3)] assms(4) by (auto simp: hideQ_def)

lemma hideQ_sub: "hideQ g Q r f0 c \<subseteq> insert r (Q c)"
  by (auto simp: hideQ_def)

lemma rows_of_mem: "r \<in> set (rows_of g c) \<longleftrightarrow> r < NR g \<and> colidx g (fam g c) r = c"
  by (auto simp: rows_of_def)

lemma cover_rows_seg:
  assumes wf: "wf_geom g" and c: "c < NC g"
  shows "rep g h C Q \<Longrightarrow> live_nodes g Q c = pre @ map (\<lambda>r. nd r (fam g c)) L \<Longrightarrow>
    set L \<subseteq> set (rows_of g c) \<Longrightarrow> distinct L \<Longrightarrow>
    \<forall>r\<in>set L. \<forall>f<4. f \<noteq> fam g c \<longrightarrow> r \<notin> Q (colidx g f r) \<Longrightarrow>
    \<exists>h'. cover_rows h (hdr g c) (firstp (map (\<lambda>r. nd r (fam g c)) L) (hdr g c)) = Some h'
        \<and> rep g h' C (fold (\<lambda>r Q. hideQ g Q r (fam g c)) L Q)
        \<and> uncover_rows h' (hdr g c)
            (lastp (lastp (hdr g c) pre) (map (\<lambda>r. nd r (fam g c)) L))
          = uncover_rows h (hdr g c) (lastp (hdr g c) pre)
        \<and> fR h' = fR h \<and> fL h' = fL h"
proof (induction L arbitrary: h Q pre)
  case Nil
  have "cover_rows h (hdr g c) (hdr g c) = Some h" by (subst cover_rows.simps) simp
  then show ?case using Nil.prems(1) by simp
next
  case (Cons r L)
  define f0 where "f0 = fam g c"
  define n where "n = nd r f0"
  define hc where "hc = hdr g c"
  have f0: "f0 < 4" using fam_less [OF c] by (simp add: f0_def)
  have r: "r < NR g" and cr: "colidx g f0 r = c"
    using Cons.prems(3) by (simp_all add: rows_of_mem f0_def)
  have live: "\<forall>f<4. f \<noteq> f0 \<longrightarrow> r \<notin> Q (colidx g f r)" using Cons.prems(5) by (simp add: f0_def)
  note H = hide_rep [OF Cons.prems(1) wf r f0 live]
  define h1 where "h1 = hide h r f0"
  define Q1 where "Q1 = hideQ g Q r f0"
  have rp1: "rep g h1 C Q1" using H(2) by (simp add: h1_def Q1_def)
  have Qc: "Q1 c = Q c" unfolding Q1_def by (rule hideQ_other [OF wf r f0 cr])
  have L1: "live_nodes g Q1 c = (pre @ [n]) @ map (\<lambda>r. nd r (fam g c)) L"
    using Cons.prems(2) by (simp add: live_nodes_def Qc n_def f0_def)
  have L0: "live_nodes g Q c = pre @ n # map (\<lambda>r. nd r (fam g c)) L"
    using Cons.prems(2) by (simp add: n_def f0_def)
  have v1: "vpath h1 hc (pre @ n # map (\<lambda>r. nd r (fam g c)) L) hc"
    using rep_vpath [OF rp1 c] by (simp add: L1 hc_def)
  have v0: "vpath h hc (pre @ n # map (\<lambda>r. nd r (fam g c)) L) hc"
    using rep_vpath [OF Cons.prems(1) c] by (simp add: L0 hc_def)
  have b1: "bottom_n (h1 n) = firstp (map (\<lambda>r. nd r (fam g c)) L) hc"
    using dpath_mid [OF v1] by (simp add: fB_def)
  have t0: "top_n (h n) = lastp hc pre"
    using dpath_mid [OF v0] by (simp add: fT_def)
  have nn: "n \<noteq> hc" "n \<noteq> 0"
    using hdr_facts(4) [OF f0 r, of c] hdr_facts(5) [of r f0] by (simp_all add: n_def hc_def)
  have p3: "set L \<subseteq> set (rows_of g c)" and p4: "distinct L" and rL: "r \<notin> set L"
    using Cons.prems(3,4) by simp_all
  have p5: "\<forall>r'\<in>set L. \<forall>f<4. f \<noteq> fam g c \<longrightarrow> r' \<notin> Q1 (colidx g f r')"
  proof (intro ballI allI impI)
    fix r' f assume a: "r' \<in> set L" "f < 4" "f \<noteq> fam g c"
    have "r' \<notin> Q (colidx g f r')" using Cons.prems(5) a by simp
    moreover have "r' \<noteq> r" using a(1) rL by blast
    ultimately show "r' \<notin> Q1 (colidx g f r')"
      using hideQ_sub [of g Q r f0 "colidx g f r'"] unfolding Q1_def by blast
  qed
  obtain h' where I: "cover_rows h1 (hdr g c) (firstp (map (\<lambda>r. nd r (fam g c)) L) (hdr g c)) = Some h'"
    "rep g h' C (fold (\<lambda>r Q. hideQ g Q r (fam g c)) L Q1)"
    "uncover_rows h' (hdr g c) (lastp (lastp (hdr g c) (pre @ [n])) (map (\<lambda>r. nd r (fam g c)) L))
       = uncover_rows h1 (hdr g c) (lastp (hdr g c) (pre @ [n]))"
    "fR h' = fR h1" "fL h' = fL h1"
    using Cons.IH [OF rp1 L1 p3 p4 p5] by blast
  have fr: "fR h1 = fR h" "fL h1 = fL h" by (simp_all add: h1_def hide_def)
  have cv: "cover_rows h hc n = Some h'"
    by (subst cover_rows.simps) (simp add: nn H(1) [folded n_def h1_def] b1 I(1) [folded hc_def])
  have un: "uncover_rows h1 hc n = uncover_rows h hc (lastp hc pre)"
    by (subst uncover_rows.simps) (simp add: nn H(3) [folded n_def h1_def] t0)
  have "uncover_rows h' hc (lastp n (map (\<lambda>r. nd r (fam g c)) L)) = uncover_rows h hc (lastp hc pre)"
    using I(3) un by (simp add: hc_def)
  then show ?case
    using cv I(2,4,5) fr
    by (simp add: n_def [symmetric] f0_def [symmetric] hc_def [symmetric] Q1_def)
qed

lemma fold_hideQ_other:
  assumes "wf_geom g" "fam g c < 4"
  shows "set L \<subseteq> set (rows_of g c) \<Longrightarrow> fold (\<lambda>r Q. hideQ g Q r (fam g c)) L Q c = Q c"
proof (induction L arbitrary: Q)
  case Nil
  then show ?case by simp
next
  case (Cons r L)
  have "hideQ g Q r (fam g c) c = Q c"
    by (rule hideQ_other [OF assms(1) _ assms(2)]) (use Cons.prems in \<open>simp_all add: rows_of_mem\<close>)
  then show ?case using Cons by simp
qed

lemma coverQ_same: "wf_geom g \<Longrightarrow> c < NC g \<Longrightarrow> coverQ g Q c c = Q c"
  unfolding coverQ_def by (rule fold_hideQ_other) (auto simp: fam_less)

lemma cover_rep:
  assumes rp: "rep g h C Q" and wf: "wf_geom g" and c: "c < NC g" and nc: "c \<notin> C"
    and cl: "clean g Q c"
  shows "\<exists>h'. cover h (hdr g c) = Some h' \<and> rep g h' (insert c C) (coverQ g Q c)
            \<and> uncover h' (hdr g c) = Some h
            \<and> fR h' = fR (remh h (hdr g c)) \<and> fL h' = fL (remh h (hdr g c)) \<and> goodh h (hdr g c)"
proof -
  define hc where "hc = hdr g c"
  define L where "L = filter (\<lambda>r. r \<notin> Q c) (rows_of g c)"
  define h1 where "h1 = remh h hc"
  have ch: "col_header_n (h hc) = hc" using rep_static [OF rp] c by (simp add: static_ok_def hc_def)
  have hz: "hc \<noteq> 0" using hdr_facts(1) [of g c] by (simp add: hc_def)
  have rp1: "rep g h1 (insert c C) Q" and gh: "goodh h hc"
    using remh_rep [OF rp c nc] by (simp_all add: h1_def hc_def)
  have LL: "live_nodes g Q c = [] @ map (\<lambda>r. nd r (fam g c)) L" by (simp add: live_nodes_def L_def)
  have p3: "set L \<subseteq> set (rows_of g c)" and p4: "distinct L"
    by (auto simp: L_def rows_of_def)
  have p5: "\<forall>r\<in>set L. \<forall>f<4. f \<noteq> fam g c \<longrightarrow> r \<notin> Q (colidx g f r)"
    using cl by (auto simp: clean_def L_def)
  obtain h' where I: "cover_rows h1 hc (firstp (map (\<lambda>r. nd r (fam g c)) L) hc) = Some h'"
    "rep g h' (insert c C) (coverQ g Q c)"
    "uncover_rows h' hc (lastp (lastp hc []) (map (\<lambda>r. nd r (fam g c)) L)) = uncover_rows h1 hc (lastp hc [])"
    "fR h' = fR h1" "fL h' = fL h1"
    using cover_rows_seg [OF wf c rp1 LL p3 p4 p5] unfolding hc_def coverQ_def L_def by blast
  have v1: "vpath h1 hc (map (\<lambda>r. nd r (fam g c)) L) hc"
    using rep_vpath [OF rp1 c] by (simp add: LL hc_def)
  have b1: "bottom_n (h1 hc) = firstp (map (\<lambda>r. nd r (fam g c)) L) hc"
    using dpath_nx_first [OF v1] by (simp add: fB_def)
  have cv: "cover h hc = Some h'"
    unfolding cover_def ch using hz I(1) by (simp add: unlink_goodh [OF gh] h1_def [symmetric] b1)
  have L': "live_nodes g (coverQ g Q c) c = map (\<lambda>r. nd r (fam g c)) L"
    by (simp add: live_nodes_def coverQ_same [OF wf c] L_def)
  have v2: "vpath h' hc (map (\<lambda>r. nd r (fam g c)) L) hc"
    using rep_vpath [OF I(2) c] by (simp add: L' hc_def)
  have t2: "top_n (h' hc) = lastp hc (map (\<lambda>r. nd r (fam g c)) L)"
    using dpath_pv_last [OF v2] by (simp add: fT_def)
  have ch': "col_header_n (h' hc) = hc"
    using rep_static [OF I(2)] c by (simp add: static_ok_def hc_def)
  have e: "uncover_rows h1 hc hc = Some h1" by (subst uncover_rows.simps) simp
  have "uncover h' hc = Some h"
    unfolding uncover_def ch' using hz I(3) e
    by (simp add: t2 h1_def relink_goodh [OF gh])
  then show ?thesis using cv I(2,4,5) gh by (simp add: hc_def h1_def)
qed

lemma clean_pristine: "clean g (\<lambda>c. {}) c"
  by (simp add: clean_def)

lemma cover_pristine:
  assumes "pristine g h" "wf_geom g" "c < NC g"
  shows "\<exists>h'. cover h (hdr g c) = Some h' \<and> rep g h' {c} (coverQ g (\<lambda>c. {}) c)
            \<and> uncover h' (hdr g c) = Some h
            \<and> fR h' = fR (remh h (hdr g c)) \<and> fL h' = fL (remh h (hdr g c)) \<and> goodh h (hdr g c)"
  using cover_rep [OF assms(1) [unfolded pristine_def] assms(2,3) _ clean_pristine] by simp

text \<open>After \<open>cover\<close> the left neighbour of the header no longer points at it.\<close>

lemma cover_unlinks_header:
  assumes "goodh h hc" "fR h' = fR (remh h hc)" "fL h' = fL (remh h hc)"
  shows "right_n (h' (left_n (h' hc))) \<noteq> hc"
proof -
  have l: "left_n (h' hc) = left_n (h hc)"
    using assms(1) fun_cong [OF assms(3), of hc] by (simp add: fL_def remh_def goodh_def)
  have "right_n (h' (left_n (h hc))) = right_n (h hc)"
    using fun_cong [OF assms(2), of "left_n (h hc)"] by (simp add: fR_def remh_def)
  then show ?thesis using assms(1) by (simp add: l goodh_def)
qed

lemma init_geom:
  assumes "supported n"
  shows "\<exists>s. init ExactCoverSolver n = Some (True, s)
           \<and> pristine (geom_of s) (store s) \<and> wf_geom (geom_of s)
           \<and> fields_ok (geom_of s) s
           \<and> NC (geom_of s) = nat (4 * n * n) \<and> NR (geom_of s) = nat (n * n * n)
           \<and> int (gN (geom_of s)) = n
           \<and> running_sol_s s = [] \<and> \<not> solved_s s \<and> printed s = []"
proof -
  from init_supported [OF fresh_solver_ExactCoverSolver assms] obtain s where
    i: "init ExactCoverSolver n = Some (True, s)"
    and p: "pristine (geom_of s) (store s)" and wf: "wf_geom (geom_of s)"
    and ok: "fields_ok (geom_of s) s" and n: "GRID_SIZE_s s = n"
    and r: "running_sol_s s = running_sol_s ExactCoverSolver"
      "solved_s s = solved_s ExactCoverSolver" "printed s = printed ExactCoverSolver"
    by blast
  let ?g = "geom_of s"
  have N: "int (gN ?g) = n" using ok n by (simp add: fields_ok_def)
  have nc: "NC ?g = nat (4 * n * n)"
    unfolding N [symmetric] NC_def by (simp add: nat_mult_distrib)
  have nr: "NR ?g = nat (n * n * n)"
    unfolding N [symmetric] NR_def by (simp add: nat_mult_distrib)
  have e: "running_sol_s s = []" "\<not> solved_s s" "printed s = []"
    using r by (simp_all add: ExactCoverSolver_def alloc_def Let_def)
  show ?thesis using i p wf ok nc nr N e by blast
qed

text \<open>
  Claim C3. On the matrix that \<open>init\<close> builds for a supported size, for every column
  header \<open>c\<close>: \<open>cover (c)\<close> returns a store that differs from the built one, and
  \<open>uncover (c)\<close> on that store returns the built store itself, so that every node has
  its former \<open>left\<close>, \<open>right\<close>, \<open>top\<close> and \<open>bottom\<close> (and all other fields).
\<close>

theorem cover_uncover_roundtrip:
  assumes "supported n"
  shows "\<exists>s. init ExactCoverSolver n = Some (True, s)
           \<and> (\<forall>c < nat (4 * n * n).
                 \<exists>h'. cover (store s) (hdr (geom_of s) c) = Some h' \<and> h' \<noteq> store s
                    \<and> uncover h' (hdr (geom_of s) c) = Some (store s))"
proof -
  from init_geom [OF assms] obtain s where
    i: "init ExactCoverSolver n = Some (True, s)"
    and p: "pristine (geom_of s) (store s)" and wf: "wf_geom (geom_of s)"
    and nc: "NC (geom_of s) = nat (4 * n * n)"
    by blast
  let ?g = "geom_of s"
  have "\<exists>h'. cover (store s) (hdr ?g c) = Some h' \<and> h' \<noteq> store s
           \<and> uncover h' (hdr ?g c) = Some (store s)" if "c < nat (4 * n * n)" for c
  proof -
    have c: "c < NC ?g" using that by (simp add: nc)
    from cover_pristine [OF p wf c] obtain h' where
      h: "cover (store s) (hdr ?g c) = Some h'" "uncover h' (hdr ?g c) = Some (store s)"
      "fR h' = fR (remh (store s) (hdr ?g c))" "fL h' = fL (remh (store s) (hdr ?g c))"
      "goodh (store s) (hdr ?g c)"
      by blast
    have "right_n (h' (left_n (h' (hdr ?g c)))) \<noteq> hdr ?g c"
      by (rule cover_unlinks_header [OF h(5,3,4)])
    moreover have "right_n (store s (left_n (store s (hdr ?g c)))) = hdr ?g c"
      using h(5) by (simp add: goodh_def)
    ultimately have "h' \<noteq> store s" by auto
    then show ?thesis using h(1,2) by blast
  qed
  then show ?thesis using i by blast
qed

theorem cover_uncover_roundtrip_witness:
  "supported 9
 \<and> (\<exists>s. init ExactCoverSolver 9 = Some (True, s)
      \<and> (\<exists>h'. cover (store s) (hdr (geom_of s) 0) = Some h' \<and> h' \<noteq> store s
            \<and> uncover h' (hdr (geom_of s) 0) = Some (store s))
      \<and> (\<exists>h'. cover (store s) (hdr (geom_of s) 323) = Some h' \<and> h' \<noteq> store s
            \<and> uncover h' (hdr (geom_of s) 323) = Some (store s)))"
proof -
  have s9: "supported 9" by (simp add: supported_def)
  from cover_uncover_roundtrip [OF s9] obtain s where
    i: "init ExactCoverSolver 9 = Some (True, s)"
    and a: "\<forall>c < nat (4 * 9 * 9).
                 \<exists>h'. cover (store s) (hdr (geom_of s) c) = Some h' \<and> h' \<noteq> store s
                    \<and> uncover h' (hdr (geom_of s) c) = Some (store s)"
    by blast
  have "(0::nat) < nat (4 * 9 * 9)" "(323::nat) < nat (4 * 9 * 9)" by simp_all
  then show ?thesis using s9 i a by blast
qed

lemma colidx_ge3: "\<not> f < 3 \<Longrightarrow> colidx g f r = colidx g 3 r"
  by (simp add: colidx_def)

lemma rows_of_iff:
  assumes "wf_geom g" "r < NR g"
  shows "r \<in> set (rows_of g c) \<longleftrightarrow> (\<exists>f<4. colidx g f r = c)"
proof
  assume "r \<in> set (rows_of g c)"
  then have e: "colidx g (fam g c) r = c" by (simp add: rows_of_mem)
  show "\<exists>f<4. colidx g f r = c"
  proof (cases "fam g c < 3")
    case True
    then show ?thesis using e by (intro exI [of _ "fam g c"]) simp
  next
    case False
    then show ?thesis using e colidx_ge3 [OF False, of g r] by (intro exI [of _ 3]) simp
  qed
next
  assume "\<exists>f<4. colidx g f r = c"
  then obtain f where f: "f < 4" "colidx g f r = c" by blast
  show "r \<in> set (rows_of g c)" using row_in_rows_of(2) [OF assms f(1)] f(2) by simp
qed

lemma rows_of_less: "r \<in> set (rows_of g c) \<Longrightarrow> r < NR g"
  by (simp add: rows_of_mem)

lemma other_column:
  assumes "wf_geom g" "c < NC g" "r \<in> set (rows_of g c)"
  shows "(\<exists>f<4. f \<noteq> fam g c \<and> colidx g f r = c') \<longleftrightarrow> c' \<noteq> c \<and> r \<in> set (rows_of g c')"
proof -
  have r: "r < NR g" and e: "colidx g (fam g c) r = c" using assms(3) by (simp_all add: rows_of_mem)
  have fc: "fam g c < 4" by (rule fam_less [OF assms(2)])
  show ?thesis
  proof
    assume "\<exists>f<4. f \<noteq> fam g c \<and> colidx g f r = c'"
    then obtain f where f: "f < 4" "f \<noteq> fam g c" "colidx g f r = c'" by blast
    have "c' \<noteq> c" using colidx_inj_fam [OF assms(1) r r f(1) fc] f(2,3) e by auto
    then show "c' \<noteq> c \<and> r \<in> set (rows_of g c')"
      using rows_of_iff [OF assms(1) r, of c'] f by blast
  next
    assume a: "c' \<noteq> c \<and> r \<in> set (rows_of g c')"
    then obtain f where f: "f < 4" "colidx g f r = c'"
      using rows_of_iff [OF assms(1) r, of c'] by blast
    have "f \<noteq> fam g c" using a f(2) e by auto
    then show "\<exists>f<4. f \<noteq> fam g c \<and> colidx g f r = c'" using f by blast
  qed
qed

lemma fold_hideQ:
  "fold (\<lambda>r Q. hideQ g Q r f0) L Q c
   = Q c \<union> {r \<in> set L. \<exists>f<4. f \<noteq> f0 \<and> colidx g f r = c}"
  by (induction L arbitrary: Q) (auto simp: hideQ_def)

lemma coverQ_eq:
  assumes "wf_geom g" "c < NC g"
  shows "coverQ g Q c c'
       = Q c' \<union> {r \<in> set (rows_of g c). r \<notin> Q c \<and> c' \<noteq> c \<and> r \<in> set (rows_of g c')}"
  unfolding coverQ_def fold_hideQ using other_column [OF assms] by auto

lemma takeWhile_fresh: "c \<notin> set CS \<Longrightarrow> takeWhile (\<lambda>x. x \<noteq> c) CS = CS"
  by (induction CS) auto

lemma Qof_fresh:
  "c \<notin> set CS \<Longrightarrow> Qof g CS c = {r \<in> set (rows_of g c). \<exists>c'\<in>set CS. r \<in> set (rows_of g c')}"
  by (simp add: Qof_def takeWhile_fresh)

lemma Qof_sub: "r \<in> Qof g CS c \<Longrightarrow> \<exists>c'\<in>set CS. r \<in> set (rows_of g c')"
  by (auto simp: Qof_def dest: set_takeWhileD)

lemma Qof_snoc:
  assumes "wf_geom g" "c < NC g" "c \<notin> set CS"
  shows "coverQ g (Qof g CS) c = Qof g (CS @ [c])"
proof (rule ext)
  fix c'
  consider "c' = c" | "c' \<noteq> c" "c' \<in> set CS" | "c' \<noteq> c" "c' \<notin> set CS" by blast
  then show "coverQ g (Qof g CS) c c' = Qof g (CS @ [c]) c'"
  proof cases
    case 1
    have "takeWhile (\<lambda>x. x \<noteq> c) (CS @ [c]) = CS" using assms(3) by (induction CS) auto
    then have "Qof g (CS @ [c]) c = Qof g CS c"
      using assms(3) by (simp add: Qof_def takeWhile_fresh)
    then show ?thesis using 1 by (simp add: coverQ_same [OF assms(1,2)])
  next
    case 2
    have "takeWhile (\<lambda>x. x \<noteq> c') (CS @ [c]) = takeWhile (\<lambda>x. x \<noteq> c') CS"
      using 2(2) by (induction CS) auto
    then have e: "Qof g (CS @ [c]) c' = Qof g CS c'" by (simp add: Qof_def)
    have "{r \<in> set (rows_of g c). r \<notin> Qof g CS c \<and> c' \<noteq> c \<and> r \<in> set (rows_of g c')} = {}"
      using 2(2) by (auto simp: Qof_fresh [OF assms(3)])
    then show ?thesis unfolding coverQ_eq [OF assms(1,2)] e by blast
  next
    case 3
    have n: "c' \<notin> set (CS @ [c])" using 3 by simp
    show ?thesis
      unfolding coverQ_eq [OF assms(1,2)] Qof_fresh [OF n] Qof_fresh [OF 3(2)]
        Qof_fresh [OF assms(3)]
      using 3(1) by auto
  qed
qed

lemma clean_Qof:
  assumes "c \<notin> set CS"
  shows "clean g (Qof g CS) c"
  unfolding clean_def Qof_fresh [OF assms] using Qof_sub [of _ g CS] by blast

lemma covered_static: "covered g h CS \<Longrightarrow> static_ok g h"
  by (simp add: covered_def rep_def)

lemma cover_step:
  assumes cv: "covered g h CS" and wf: "wf_geom g" and c: "c < NC g" and nc: "c \<notin> set CS"
  shows "\<exists>h'. cover h (hdr g c) = Some h' \<and> covered g h' (CS @ [c])
            \<and> uncover h' (hdr g c) = Some h
            \<and> fR h' = fR (remh h (hdr g c)) \<and> fL h' = fL (remh h (hdr g c)) \<and> goodh h (hdr g c)"
proof -
  have rp: "rep g h (set CS) (Qof g CS)" using cv by (simp add: covered_def)
  from cover_rep [OF rp wf c nc clean_Qof [OF nc]] obtain h' where
    h: "cover h (hdr g c) = Some h'" "rep g h' (insert c (set CS)) (coverQ g (Qof g CS) c)"
    "uncover h' (hdr g c) = Some h" "fR h' = fR (remh h (hdr g c))"
    "fL h' = fL (remh h (hdr g c))" "goodh h (hdr g c)"
    by blast
  have "covered g h' (CS @ [c])"
    using cv c nc h(2) by (simp add: covered_def Qof_snoc [OF wf c nc])
  then show ?thesis using h by blast
qed

lemma pristine_covered: "pristine g h \<longleftrightarrow> covered g h []"
proof -
  have "Qof g [] = (\<lambda>c. {})" by (rule ext) (simp add: Qof_def)
  then show ?thesis by (simp add: pristine_def covered_def)
qed

lemma static_col_header:
  "static_ok g h \<Longrightarrow> r < NR g \<Longrightarrow> f < 4 \<Longrightarrow> col_header_n (h (nd r f)) = hdr g (colidx g f r)"
  by (simp add: static_ok_def)

lemma cover_others_step:
  assumes cv: "covered g h CS" and wf: "wf_geom g" and r: "r < NR g" and f0: "f0 < 4"
    and fresh: "\<forall>f<4. f \<noteq> f0 \<longrightarrow> colidx g f r \<notin> set CS"
  shows "\<exists>h'. cover_others h (nd r f0) (right_n (h (nd r f0))) = Some h'
            \<and> covered g h' (CS @ cols3 g r f0)"
proof -
  define f1 f2 f3 where "f1 = (f0 + 1) mod 4" and "f2 = (f0 + 2) mod 4" and "f3 = (f0 + 3) mod 4"
  note fd = f1_def f2_def f3_def
  note R = ring4 [OF f0, folded fd]
  define c1 c2 c3 where "c1 = colidx g f1 r" and "c2 = colidx g f2 r" and "c3 = colidx g f3 r"
  note cd = c1_def c2_def c3_def
  have cne: "c1 \<noteq> c2" "c1 \<noteq> c3" "c2 \<noteq> c3"
    using colidx_inj_fam [OF wf r r, of f1 f2] colidx_inj_fam [OF wf r r, of f1 f3]
      colidx_inj_fam [OF wf r r, of f2 f3] R(1-3,7-9)
    unfolding cd by blast+
  have cl: "c1 < NC g" "c2 < NC g" "c3 < NC g"
    using colidx_family(1) [OF wf r] R(1-3) by (simp_all add: cd)
  have fr: "c1 \<notin> set CS" "c2 \<notin> set CS" "c3 \<notin> set CS" using fresh R(1-6) by (simp_all add: cd)
  from cover_step [OF cv wf cl(1) fr(1)] obtain h1 where
    h1: "cover h (hdr g c1) = Some h1" "covered g h1 (CS @ [c1])" by blast
  have n2: "c2 \<notin> set (CS @ [c1])" using fr cne by simp
  from cover_step [OF h1(2) wf cl(2) n2] obtain h2 where
    h2: "cover h1 (hdr g c2) = Some h2" "covered g h2 ((CS @ [c1]) @ [c2])" by blast
  have n3: "c3 \<notin> set ((CS @ [c1]) @ [c2])" using fr cne by simp
  from cover_step [OF h2(2) wf cl(3) n3] obtain h3 where
    h3: "cover h2 (hdr g c3) = Some h3" "covered g h3 (((CS @ [c1]) @ [c2]) @ [c3])" by blast
  have st: "static_ok g h" "static_ok g h1" "static_ok g h2"
    using cv h1(2) h2(2) by (simp_all add: covered_static)
  have ch: "col_header_n (h (nd r f1)) = hdr g c1" "col_header_n (h1 (nd r f2)) = hdr g c2"
    "col_header_n (h2 (nd r f3)) = hdr g c3"
    using static_col_header [OF st(1) r R(1)] static_col_header [OF st(2) r R(2)]
      static_col_header [OF st(3) r R(3)] by (simp_all add: cd)
  have rg: "right_n (h (nd r f0)) = nd r f1" "right_n (h1 (nd r f1)) = nd r f2"
    "right_n (h2 (nd r f2)) = nd r f3" "right_n (h3 (nd r f3)) = nd r f0"
    using static_right(1) [OF st(1) r f0] static_right(1) [OF st(2) r R(1)]
      static_right(1) [OF st(3) r R(2)] static_right(1) [OF covered_static [OF h3(2)] r R(3)]
      R(10-12)
    by (simp_all add: fd)
  have ne: "nd r f1 \<noteq> nd r f0" "nd r f2 \<noteq> nd r f0" "nd r f3 \<noteq> nd r f0"
    "nd r f1 \<noteq> 0" "nd r f2 \<noteq> 0" "nd r f3 \<noteq> 0"
    using R(4-6) by (simp_all add: nd_def fd)
  have a3: "cover_others h3 (nd r f0) (nd r f0) = Some h3"
    by (subst cover_others.simps) simp
  have a2: "cover_others h2 (nd r f0) (nd r f3) = Some h3"
    by (subst cover_others.simps) (simp add: ne ch h3(1) rg a3)
  have a1: "cover_others h1 (nd r f0) (nd r f2) = Some h3"
    by (subst cover_others.simps) (simp add: ne ch h2(1) rg a2)
  have a0: "cover_others h (nd r f0) (nd r f1) = Some h3"
    by (subst cover_others.simps) (simp add: ne ch h1(1) rg a1)
  show ?thesis using a0 h3(2) by (simp add: rg cols3_def cd fd)
qed

lemma find_down_list:
  "dpath (fB h) (fT h) a ns hc \<Longrightarrow> hc \<notin> set ns \<Longrightarrow> 0 \<notin> set ns \<Longrightarrow>
   find_down h node hc (firstp ns hc) = Some (firstm (matches h node) ns)"
proof (induction ns arbitrary: a)
  case Nil
  show ?case by (subst find_down.simps) simp
next
  case (Cons x xs)
  have b: "bottom_n (h x) = firstp xs hc"
    using dpath_nx_first [of "fB h" "fT h" x xs hc] Cons.prems(1) by (simp add: fB_def)
  have i: "find_down h node hc (firstp xs hc) = Some (firstm (matches h node) xs)"
    using Cons.IH [of x] Cons.prems by simp
  show ?case
    using Cons.prems(2,3) by (subst find_down.simps) (simp add: b i matches_def)
qed

lemma find_right_list:
  "dpath (fR h) (fL h) a hs root \<Longrightarrow> root \<notin> set hs \<Longrightarrow> 0 \<notin> set hs \<Longrightarrow>
   \<forall>p\<in>set hs. find_down h node p (bottom_n (h p)) = Some (F p) \<Longrightarrow>
   find_right h root node (firstp hs root) = Some (firstv F hs)"
proof (induction hs arbitrary: a)
  case Nil
  show ?case by (subst find_right.simps) simp
next
  case (Cons x xs)
  have b: "right_n (h x) = firstp xs root"
    using dpath_nx_first [of "fR h" "fL h" x xs root] Cons.prems(1) by (simp add: fR_def)
  have i: "find_right h root node (firstp xs root) = Some (firstv F xs)"
    using Cons.IH [of x] Cons.prems by simp
  have d: "find_down h node x (bottom_n (h x)) = Some (F x)" using Cons.prems(4) by simp
  show ?case
    using Cons.prems(2,3) by (subst find_right.simps) (simp add: b i d)
qed

lemma firstm_map:
  "\<forall>x\<in>set L. P (f x) \<longleftrightarrow> x = r \<Longrightarrow> firstm P (map f L) = (if r \<in> set L then f r else 0)"
  by (induction L) auto

lemma firstv_zero: "\<forall>p\<in>set hs. F p = 0 \<Longrightarrow> firstv F hs = 0"
  by (induction hs) auto

lemma firstv_first: "\<forall>p\<in>set xs. F p = 0 \<Longrightarrow> F y \<noteq> 0 \<Longrightarrow> firstv F (xs @ y # ys) = F y"
  by (induction xs) auto

lemma find_down_col:
  assumes "rep g h C Q" "c < NC g"
  shows "find_down h node (hdr g c) (bottom_n (h (hdr g c)))
       = Some (firstm (matches h node) (live_nodes g Q c))"
proof -
  have v: "vpath h (hdr g c) (live_nodes g Q c) (hdr g c)" by (rule rep_vpath [OF assms])
  have b: "bottom_n (h (hdr g c)) = firstp (live_nodes g Q c) (hdr g c)"
    using dpath_nx_first [OF v] by (simp add: fB_def)
  have d: "hdr g c \<notin> set (live_nodes g Q c)" using live_distinct [OF assms(2), of Q] by simp
  have z: "0 \<notin> set (live_nodes g Q c)"
    using live_colmem [of g c Q] colmem_not01 [OF assms(2)] by auto
  show ?thesis unfolding b by (rule find_down_list [OF v d z])
qed

lemma find_ec_rep:
  assumes "rep g h C Q"
  shows "find_ec h 1 node
       = Some (firstv (\<lambda>p. firstm (matches h node) (live_nodes g Q (p - hdr g 0))) (live_cols g C))"
proof -
  have hp: "hpath h 1 (live_cols g C) 1" using assms by (simp add: rep_def)
  have r: "right_n (h 1) = firstp (live_cols g C) 1"
    using dpath_nx_first [OF hp] by (simp add: fR_def)
  have d: "1 \<notin> set (live_cols g C)" using live_cols_distinct [of g C] by simp
  have z: "0 \<notin> set (live_cols g C)" by (auto simp: live_cols_def hdr_def)
  have f: "\<forall>p\<in>set (live_cols g C). find_down h node p (bottom_n (h p))
       = Some (firstm (matches h node) (live_nodes g Q (p - hdr g 0)))"
  proof
    fix p assume "p \<in> set (live_cols g C)"
    then obtain c where c: "c < NC g" "p = hdr g c" by (auto simp: live_cols_def)
    have "p - hdr g 0 = c" by (simp add: c hdr_def)
    then show "find_down h node p (bottom_n (h p))
       = Some (firstm (matches h node) (live_nodes g Q (p - hdr g 0)))"
      using find_down_col [OF assms c(1)] c(2) by simp
  qed
  show ?thesis
    unfolding find_ec_def r using find_right_list [OF hp d z f] by simp
qed

lemma firstm_none: "\<forall>x\<in>set xs. \<not> P x \<Longrightarrow> firstm P xs = 0"
  by (induction xs) auto

lemma matches_row:
  assumes "static_ok g h" "r' < NR g" "f < 4"
  shows "matches h (Node3 i j k) (nd r' f)
       \<longleftrightarrow> int (ri g r') = i \<and> int (rj g r') = j \<and> int (rk g r') = k"
  using assms by (auto simp: matches_def Node3_def static_ok_def row_fields_def)

lemma triple_inj:
  assumes "ri g r' = ri g r" "rj g r' = rj g r" "rk g r' = rk g r"
  shows "r' = r"
  using r_decomp [of g r] r_decomp [of g r'] assms by simp

lemma colidx_lower:
  assumes "wf_geom g" "r < NR g" "f < 4"
  shows "f * (gN g * gN g) \<le> colidx g f r" and "colidx g f r < Suc f * (gN g * gN g)"
proof -
  have p: "0 < gN g * gN g" using wf_geom_pos [OF assms(1)] by simp
  have d: "colidx g f r div (gN g * gN g) = f" by (rule colidx_family(2) [OF assms])
  show "f * (gN g * gN g) \<le> colidx g f r"
    using d p by (metis div_times_less_eq_dividend)
  show "colidx g f r < Suc f * (gN g * gN g)"
    using d p by (metis dividend_less_div_times add.commute mult.commute mult_Suc)
qed

lemma live_rows_mem:
  "nd r (fam g c) \<in> set (live_nodes g Q c) \<Longrightarrow> fam g c < 4 \<Longrightarrow> r \<in> set (rows_of g c) \<and> r \<notin> Q c"
proof -
  assume a: "nd r (fam g c) \<in> set (live_nodes g Q c)" and f: "fam g c < 4"
  then obtain r' where r': "r' \<in> set (rows_of g c)" "r' \<notin> Q c" "nd r (fam g c) = nd r' (fam g c)"
    by (auto simp: live_nodes_def)
  have "r = r'" using r'(3) nd_inj [OF f f, of r r'] by simp
  then show ?thesis using r' by simp
qed

text \<open>
  \<open>find\<close> returns the node of the row in its first column when none of the columns of
  the row is covered, and \<open>NULL\<close> when every row with the triple has a covered column
  (or there is no such row).
\<close>

lemma find_hit:
  assumes cv: "covered g h CS" and wf: "wf_geom g" and r: "r < NR g"
    and fresh: "\<forall>f<4. colidx g f r \<notin> set CS"
  shows "find_ec h 1 (Node3 (int (ri g r)) (int (rj g r)) (int (rk g r))) = Some (nd r 0)"
proof -
  let ?node = "Node3 (int (ri g r)) (int (rj g r)) (int (rk g r))"
  let ?F = "\<lambda>p. firstm (matches h ?node) (live_nodes g (Qof g CS) (p - hdr g 0))"
  define c0 where "c0 = colidx g 0 r"
  have rp: "rep g h (set CS) (Qof g CS)" using cv by (simp add: covered_def)
  have st: "static_ok g h" by (rule covered_static [OF cv])
  have c0: "c0 < NC g" and f0: "fam g c0 = 0" and rin: "r \<in> set (rows_of g c0)"
    using colidx_family(1) [OF wf r, of 0] row_in_rows_of [OF wf r, of 0] by (simp_all add: c0_def)
  have c0n: "c0 \<notin> set CS" using fresh by (simp add: c0_def)
  have F: "?F (hdr g c) = (if r \<in> set (rows_of g c) \<and> r \<notin> Qof g CS c then nd r (fam g c) else 0)"
    if c: "c < NC g" for c
  proof -
    have e: "hdr g c - hdr g 0 = c" by (simp add: hdr_def)
    have m: "\<forall>x\<in>set (filter (\<lambda>r. r \<notin> Qof g CS c) (rows_of g c)).
               matches h ?node (nd x (fam g c)) \<longleftrightarrow> x = r"
    proof
      fix x assume "x \<in> set (filter (\<lambda>r. r \<notin> Qof g CS c) (rows_of g c))"
      then have x: "x < NR g" by (simp add: rows_of_mem)
      show "matches h ?node (nd x (fam g c)) \<longleftrightarrow> x = r"
        unfolding matches_row [OF st x fam_less [OF c]] using triple_inj [of g x r] by auto
    qed
    have "firstm (matches h ?node) (map (\<lambda>x. nd x (fam g c))
              (filter (\<lambda>r. r \<notin> Qof g CS c) (rows_of g c)))
        = (if r \<in> set (filter (\<lambda>r. r \<notin> Qof g CS c) (rows_of g c))
           then nd r (fam g c) else 0)"
      using m by (rule firstm_map [of _ "matches h ?node" "\<lambda>x. nd x (fam g c)" r])
    then show ?thesis
      unfolding e live_nodes_def by simp
  qed
  have below: "r \<notin> set (rows_of g c)" if "c < c0" for c
  proof
    assume "r \<in> set (rows_of g c)"
    then obtain f where f: "f < 4" "colidx g f r = c" using rows_of_iff [OF wf r] by blast
    have "f \<noteq> 0"
    proof
      assume "f = 0"
      then have "c = c0" using f(2) by (simp add: c0_def)
      then show False using that by simp
    qed
    then have "Suc 0 \<le> f" by simp
    then have "Suc 0 * (gN g * gN g) \<le> f * (gN g * gN g)" by (rule mult_le_mono1)
    then have "gN g * gN g \<le> f * (gN g * gN g)" by simp
    then have "gN g * gN g \<le> c" using colidx_lower(1) [OF wf r f(1)] f(2) by linarith
    moreover have "c0 < gN g * gN g" using colidx_lower(2) [OF wf r, of 0] by (simp add: c0_def)
    ultimately show False using that by simp
  qed
  have nq: "r \<notin> Qof g CS c0"
  proof
    assume "r \<in> Qof g CS c0"
    then obtain c' where c': "c' \<in> set CS" "r \<in> set (rows_of g c')" using Qof_sub by blast
    then show False using rows_of_iff [OF wf r, of c'] fresh by blast
  qed
  have sp: "filter (\<lambda>c. c \<notin> set CS) [0..<NC g]
      = filter (\<lambda>c. c \<notin> set CS) [0..<c0] @ c0 # filter (\<lambda>c. c \<notin> set CS) [Suc c0..<NC g]"
  proof -
    have "[0..<NC g] = [0..<c0] @ c0 # [Suc c0..<NC g]"
      using c0 by (metis le0 upt_conv_Cons upt_add_eq_append le_add_diff_inverse less_imp_le)
    then show ?thesis using c0n by (metis filter.simps(2) filter_append)
  qed
  have lc: "live_cols g (set CS) = map (hdr g) (filter (\<lambda>c. c \<notin> set CS) [0..<c0]) @ hdr g c0
      # map (hdr g) (filter (\<lambda>c. c \<notin> set CS) [Suc c0..<NC g])"
    unfolding live_cols_def sp by simp
  have z: "\<forall>p\<in>set (map (hdr g) (filter (\<lambda>c. c \<notin> set CS) [0..<c0])). ?F p = 0"
  proof
    fix p assume "p \<in> set (map (hdr g) (filter (\<lambda>c. c \<notin> set CS) [0..<c0]))"
    then obtain c where c: "c < c0" "p = hdr g c" by auto
    have "c < NC g" using c(1) c0 by simp
    then show "?F p = 0" using F [of c] below [OF c(1)] c(2) by simp
  qed
  have h: "?F (hdr g c0) = nd r 0" using F [OF c0] rin nq f0 by simp
  have nz: "?F (hdr g c0) \<noteq> 0" unfolding h by (simp add: nd_def)
  show ?thesis
    unfolding find_ec_rep [OF rp] lc firstv_first [OF z nz] h ..
qed

lemma find_miss:
  assumes cv: "covered g h CS" and wf: "wf_geom g"
    and hid: "\<forall>r<NR g. int (ri g r) = i \<and> int (rj g r) = j \<and> int (rk g r) = k
                \<longrightarrow> (\<exists>f<4. colidx g f r \<in> set CS)"
  shows "find_ec h 1 (Node3 i j k) = Some 0"
proof -
  let ?F = "\<lambda>p. firstm (matches h (Node3 i j k)) (live_nodes g (Qof g CS) (p - hdr g 0))"
  have rp: "rep g h (set CS) (Qof g CS)" using cv by (simp add: covered_def)
  have st: "static_ok g h" by (rule covered_static [OF cv])
  have "\<forall>p\<in>set (live_cols g (set CS)). ?F p = 0"
  proof
    fix p assume "p \<in> set (live_cols g (set CS))"
    then obtain c where c: "c < NC g" "c \<notin> set CS" "p = hdr g c" by (auto simp: live_cols_def)
    have e: "hdr g c - hdr g 0 = c" by (simp add: hdr_def)
    have "\<forall>x\<in>set (live_nodes g (Qof g CS) c). \<not> matches h (Node3 i j k) x"
    proof
      fix x assume x: "x \<in> set (live_nodes g (Qof g CS) c)"
      then obtain r where r: "r \<in> set (rows_of g c)" "r \<notin> Qof g CS c" "x = nd r (fam g c)"
        by (auto simp: live_nodes_def)
      have rl: "r < NR g" using r(1) by (simp add: rows_of_mem)
      show "\<not> matches h (Node3 i j k) x"
      proof
        assume "matches h (Node3 i j k) x"
        then have "int (ri g r) = i \<and> int (rj g r) = j \<and> int (rk g r) = k"
          using matches_row [OF st rl fam_less [OF c(1)]] r(3) by simp
        then obtain f where f: "f < 4" "colidx g f r \<in> set CS" using hid rl by blast
        have "r \<in> set (rows_of g (colidx g f r))" by (rule row_in_rows_of(2) [OF wf rl f(1)])
        then have "r \<in> Qof g CS c" using r(1) f(2) by (auto simp: Qof_fresh [OF c(2)])
        then show False using r(2) by simp
      qed
    qed
    then show "?F p = 0" unfolding c(3) e by (rule firstm_none)
  qed
  then show ?thesis unfolding find_ec_rep [OF rp] by (simp add: firstv_zero)
qed

lemma pair_inj:
  assumes "b * n + a = b' * n + a'" "a < n" "a' < (n::nat)"
  shows "a = a' \<and> b = b'"
  using fam_div' [OF assms(2), of b] fam_div' [OF assms(3), of b']
    fam_mod' [OF assms(2), of b] fam_mod' [OF assms(3), of b'] assms(1)
  by simp

lemma box_inj:
  assumes "wf_geom g" "i < gN g" "i' < gN g"
  shows "box_of g i j = box_of g i' j' \<longleftrightarrow> i div gR g = i' div gR g \<and> j div gC g = j' div gC g"
proof -
  have N: "gN g = gR g * gC g" and p: "0 < gR g" using assms(1) by (simp_all add: wf_geom_def)
  have a: "i div gR g < gC g" "i' div gR g < gC g"
    using assms(2,3) p by (simp_all add: N less_mult_imp_div_less mult.commute)
  show ?thesis
  proof
    assume "box_of g i j = box_of g i' j'"
    then have "j div gC g * gC g + i div gR g = j' div gC g * gC g + i' div gR g"
      by (simp add: box_of_def add.commute)
    then show "i div gR g = i' div gR g \<and> j div gC g = j' div gC g"
      using pair_inj [OF _ a] by blast
  qed (simp add: box_of_def)
qed

lemma rowof_facts:
  assumes "wf_geom g" "i < gN g" "j < gN g" "k < gN g"
  shows "rowof g i j k < NR g" "ri g (rowof g i j k) = i" "rj g (rowof g i j k) = j"
    "rk g (rowof g i j k) = k"
  using triple_less [OF assms(2-4)] row_of_triple [OF assms(3,4), of i]
  by (simp_all add: rowof_def)

lemma colidx_rowof:
  assumes "wf_geom g" "i < gN g" "j < gN g" "k < gN g"
  shows "colidx g 0 (rowof g i j k) = i * gN g + k"
    "colidx g 1 (rowof g i j k) = gN g * gN g + (j * gN g + k)"
    "colidx g 2 (rowof g i j k) = gN g * gN g * 2 + (i * gN g + j)"
    "colidx g 3 (rowof g i j k) = gN g * gN g * 3 + (box_of g i j * gN g + k)"
  by (simp_all add: colidx_def rowof_facts [OF assms])

text \<open>Two rows of different cells have a column in common exactly when they clash.\<close>

lemma share_column:
  assumes wf: "wf_geom g" and a: "i < gN g" "j < gN g" "k < gN g"
    and b: "i' < gN g" "j' < gN g" "k' < gN g" and ne: "(i, j) \<noteq> (i', j')"
  shows "(\<exists>f<4. \<exists>f'<4. colidx g f (rowof g i j k) = colidx g f' (rowof g i' j' k'))
       \<longleftrightarrow> k = k' \<and> same_unit g (i, j) (i', j')"
proof -
  let ?r = "rowof g i j k" and ?r' = "rowof g i' j' k'"
  note A = colidx_rowof [OF wf a] and B = colidx_rowof [OF wf b]
  have r: "?r < NR g" "?r' < NR g" using rowof_facts(1) [OF wf a] rowof_facts(1) [OF wf b] by simp_all
  have e0: "colidx g 0 ?r = colidx g 0 ?r' \<longleftrightarrow> i = i' \<and> k = k'"
    unfolding A B using pair_inj [OF _ a(3) b(3), of i i'] by auto
  have e1: "colidx g 1 ?r = colidx g 1 ?r' \<longleftrightarrow> j = j' \<and> k = k'"
    unfolding A B using pair_inj [OF _ a(3) b(3), of j j'] by auto
  have e2: "colidx g 2 ?r \<noteq> colidx g 2 ?r'"
    unfolding A B using pair_inj [OF _ a(2) b(2), of i i'] ne by auto
  have e3: "colidx g 3 ?r = colidx g 3 ?r'
      \<longleftrightarrow> (i div gR g = i' div gR g \<and> j div gC g = j' div gC g) \<and> k = k'"
    unfolding A B box_inj [OF wf a(1) b(1), symmetric]
    using pair_inj [OF _ a(3) b(3), of "box_of g i j" "box_of g i' j'"] by auto
  have f4: "f < 4 \<longleftrightarrow> f = 0 \<or> f = 1 \<or> f = 2 \<or> f = 3" for f :: nat by arith
  have "(\<exists>f<4. \<exists>f'<4. colidx g f ?r = colidx g f' ?r') \<longleftrightarrow> (\<exists>f<4. colidx g f ?r = colidx g f ?r')"
    using colidx_inj_fam [OF wf r] by blast
  also have "\<dots> \<longleftrightarrow> k = k' \<and> same_unit g (i, j) (i', j')"
    unfolding f4 same_unit_def using e0 e1 e2 e3 by auto
  finally show ?thesis .
qed

lemma placed_append [simp]: "placed g G (ps @ cs) = placed g G ps @ placed g G cs"
  by (simp add: placed_def)

lemma CSof_append [simp]: "CSof g G (ps @ cs) = CSof g G ps @ CSof g G cs"
  by (simp add: CSof_def)

lemma CSof_single:
  "CSof g G [a] = (if gval G a \<noteq> 0 then cols4 g (clue_row g G a) else [])"
  by (simp add: CSof_def placed_def)

lemma CSof_set:
  "set (CSof g G ps) = {colidx g f (clue_row g G b) | b f. b \<in> set ps \<and> gval G b \<noteq> 0 \<and> f < 4}"
proof -
  have f4: "f < 4 \<longleftrightarrow> f = 0 \<or> f = 1 \<or> f = 2 \<or> f = 3" for f :: nat by arith
  show ?thesis unfolding CSof_def placed_def cols4_def f4 by auto
qed

lemma place_row:
  assumes cv: "covered g h CS" and wf: "wf_geom g" and r: "r < NR g"
    and fresh: "\<forall>f<4. colidx g f r \<notin> set CS"
  shows "\<exists>h1 h2. cover h (col_header_n (h (nd r 0))) = Some h1
            \<and> cover_others h1 (nd r 0) (right_n (h1 (nd r 0))) = Some h2
            \<and> covered g h2 (CS @ cols4 g r)"
proof -
  define c0 where "c0 = colidx g 0 r"
  have c0: "c0 < NC g" using colidx_family(1) [OF wf r, of 0] by (simp add: c0_def)
  have n0: "c0 \<notin> set CS" using fresh by (simp add: c0_def)
  have ch: "col_header_n (h (nd r 0)) = hdr g c0"
    using static_col_header [OF covered_static [OF cv] r, of 0] by (simp add: c0_def)
  from cover_step [OF cv wf c0 n0] obtain h1 where
    h1: "cover h (hdr g c0) = Some h1" "covered g h1 (CS @ [c0])" by blast
  have fr: "\<forall>f<4. f \<noteq> 0 \<longrightarrow> colidx g f r \<notin> set (CS @ [c0])"
  proof (intro allI impI)
    fix f :: nat assume f: "f < 4" "f \<noteq> 0"
    have "colidx g f r \<noteq> c0" using colidx_inj_fam [OF wf r r f(1), of 0] f(2) by (auto simp: c0_def)
    then show "colidx g f r \<notin> set (CS @ [c0])" using fresh f(1) by simp
  qed
  from cover_others_step [OF h1(2) wf r _ fr] obtain h2 where
    h2: "cover_others h1 (nd r 0) (right_n (h1 (nd r 0))) = Some h2"
    "covered g h2 ((CS @ [c0]) @ cols3 g r 0)" by auto
  have e: "(0 + 1) mod 4 = (1::nat)" "(0 + 2) mod 4 = (2::nat)" "(0 + 3) mod 4 = (3::nat)"
    by simp_all
  have "cols3 g r 0 = [colidx g 1 r, colidx g 2 r, colidx g 3 r]" unfolding cols3_def e ..
  then have "(CS @ [c0]) @ cols3 g r 0 = CS @ cols4 g r" unfolding cols4_def c0_def by simp
  then show ?thesis using h1(1) h2 ch by simp
qed

lemma clue_row_facts:
  assumes wf: "wf_geom g" and a: "fst a < gN g" "snd a < gN g"
    and v: "0 < gval G a" "gval G a \<le> int (gN g)"
  shows "clue_row g G a < NR g" "int (ri g (clue_row g G a)) = int (fst a)"
    "int (rj g (clue_row g G a)) = int (snd a)" "int (rk g (clue_row g G a)) = gval G a - 1"
    "nat (gval G a - 1) < gN g"
proof -
  show k: "nat (gval G a - 1) < gN g" using v by linarith
  show "clue_row g G a < NR g" "int (ri g (clue_row g G a)) = int (fst a)"
    "int (rj g (clue_row g G a)) = int (snd a)" "int (rk g (clue_row g G a)) = gval G a - 1"
    using rowof_facts [OF wf a k] v(1) by (simp_all add: clue_row_def)
qed

lemma clash_covered:
  assumes wf: "wf_geom g" and a: "fst a < gN g" "snd a < gN g"
    and v: "0 < gval G a" "gval G a \<le> int (gN g)"
    and ps: "\<forall>b\<in>set ps. fst b < gN g \<and> snd b < gN g" "in_range g G ps" "a \<notin> set ps"
  shows "(\<exists>f<4. colidx g f (clue_row g G a) \<in> set (CSof g G ps))
       \<longleftrightarrow> (\<exists>b\<in>set ps. gval G b = gval G a \<and> same_unit g b a)"
proof -
  let ?k = "\<lambda>b. nat (gval G b - 1)"
  have ka: "?k a < gN g" using v by linarith
  have sh: "(\<exists>f<4. \<exists>f'<4. colidx g f (clue_row g G a) = colidx g f' (clue_row g G b))
       \<longleftrightarrow> gval G b = gval G a \<and> same_unit g b a"
    if b: "b \<in> set ps" "gval G b \<noteq> 0" for b
  proof -
    have bb: "fst b < gN g" "snd b < gN g" using ps(1) b(1) by simp_all
    have vb: "0 < gval G b" "gval G b \<le> int (gN g)" using ps(2) b by (simp_all add: in_range_def)
    have kb: "?k b < gN g" using vb by linarith
    have ne: "(fst a, snd a) \<noteq> (fst b, snd b)" using ps(3) b(1) by (metis prod.collapse)
    have "?k a = ?k b \<longleftrightarrow> gval G b = gval G a" using v vb by linarith
    moreover have "same_unit g (fst a, snd a) (fst b, snd b) \<longleftrightarrow> same_unit g b a"
      by (auto simp: same_unit_def)
    ultimately show ?thesis
      using share_column [OF wf a ka bb kb ne] by (simp add: clue_row_def)
  qed
  show ?thesis
  proof
    assume "\<exists>f<4. colidx g f (clue_row g G a) \<in> set (CSof g G ps)"
    then obtain f b f' where "f < 4" "b \<in> set ps" "gval G b \<noteq> 0" "f' < 4"
      "colidx g f (clue_row g G a) = colidx g f' (clue_row g G b)"
      unfolding CSof_set by blast
    then show "\<exists>b\<in>set ps. gval G b = gval G a \<and> same_unit g b a" using sh by blast
  next
    assume "\<exists>b\<in>set ps. gval G b = gval G a \<and> same_unit g b a"
    then obtain b where b: "b \<in> set ps" "gval G b = gval G a" "same_unit g b a" by blast
    have nz: "gval G b \<noteq> 0" using b(2) v(1) by simp
    obtain f f' where "f < 4" "f' < 4"
      "colidx g f (clue_row g G a) = colidx g f' (clue_row g G b)"
      using sh [OF b(1) nz] b(2,3) by blast
    then show "\<exists>f<4. colidx g f (clue_row g G a) \<in> set (CSof g G ps)"
      unfolding CSof_set using b(1) nz by blast
  qed
qed

section \<open>The loop over the clues\<close>

lemma insert_clues_range:
  assumes "i < length G" "j < length (G ! i)" "G ! i ! j > GRID_SIZE_s s \<or> G ! i ! j < 0"
  shows "insert_clues G ((i, j) # cs) s pn = Some (Inl (s\<lparr>printed := printed s @ [Invalid_puzzle]\<rparr>))"
  using assms by (simp add: Let_def)

lemma insert_clues_blank:
  assumes "i < length G" "j < length (G ! i)" "G ! i ! j = 0" "0 \<le> GRID_SIZE_s s"
  shows "insert_clues G ((i, j) # cs) s pn = insert_clues G cs s pn"
  using assms by (simp add: Let_def)

lemma insert_clues_repeated:
  assumes "i < length G" "j < length (G ! i)" "0 < G ! i ! j" "G ! i ! j \<le> GRID_SIZE_s s"
    "find_ec (store s) (root_s s) (Node3 (int i) (int j) (G ! i ! j - 1)) = Some 0"
  shows "insert_clues G ((i, j) # cs) s pn
       = Some (Inl (s\<lparr>printed := printed s
                     @ [Repeated_or_invalid (G ! i ! j) (int i + 1) (int j + 1)]\<rparr>))"
  using assms by (simp add: Let_def)

lemma insert_clues_place:
  assumes "i < length G" "j < length (G ! i)" "0 < G ! i ! j" "G ! i ! j \<le> GRID_SIZE_s s"
    "find_ec (store s) (root_s s) (Node3 (int i) (int j) (G ! i ! j - 1)) = Some n" "n \<noteq> 0"
    "cover (store s) (col_header_n (store s n)) = Some h1"
    "cover_others h1 n (right_n (h1 n)) = Some h2"
  shows "insert_clues G ((i, j) # cs) s pn
       = insert_clues G cs (s\<lparr>store := h2, running_sol_s := n # running_sol_s s\<rparr>) (n # pn)"
  using assms by (simp add: Let_def)

declare insert_clues.simps [simp del]

lemma fields_ok_sol [simp]:
  "fields_ok g (s\<lparr>running_sol_s := x\<rparr>) = fields_ok g s"
  "fields_ok g (s\<lparr>printed := y\<rparr>) = fields_ok g s"
  "fields_ok g (s\<lparr>solved_s := b\<rparr>) = fields_ok g s"
  "fields_ok g (s\<lparr>total_competition_s := t\<rparr>) = fields_ok g s"
  by (simp_all add: fields_ok_def)

lemma insert_clues_scan:
  assumes wf: "wf_geom g" and G: "length G = gN g" "\<forall>row\<in>set G. length row = gN g"
  shows "fields_ok g s \<Longrightarrow> covered g (store s) (CSof g G ps) \<Longrightarrow> distinct (ps @ cs) \<Longrightarrow>
    \<forall>a\<in>set (ps @ cs). fst a < gN g \<and> snd a < gN g \<Longrightarrow> in_range g G ps \<Longrightarrow>
    (\<forall>ps' a. scan g G ps cs = Some (ps', a) \<longrightarrow>
       (\<exists>h' rs. insert_clues G cs s pn
                 = Some (Inl (s\<lparr>store := h', running_sol_s := rs,
                                 printed := printed s @ [bad_msg g G a]\<rparr>))
          \<and> covered g h' (CSof g G ps')
          \<and> find_ec h' 1 (Node3 (int (fst a)) (int (snd a)) (gval G a - 1)) = Some 0))
  \<and> (scan g G ps cs = None \<longrightarrow>
       (\<exists>h'. insert_clues G cs s pn
              = Some (Inr (s\<lparr>store := h',
                              running_sol_s := map (\<lambda>r. nd r 0) (rev (placed g G cs))
                                                 @ running_sol_s s\<rparr>,
                           map (\<lambda>r. nd r 0) (rev (placed g G cs)) @ pn))
          \<and> covered g h' (CSof g G (ps @ cs)) \<and> in_range g G (ps @ cs)))"
proof (induction cs arbitrary: ps s pn)
  case Nil
  have "insert_clues G [] s pn
      = Some (Inr (s\<lparr>store := store s, running_sol_s := [] @ running_sol_s s\<rparr>, [] @ pn))"
    by (simp add: insert_clues.simps)
  then have "insert_clues G [] s pn
      = Some (Inr (s\<lparr>store := store s,
                      running_sol_s := map (\<lambda>r. nd r 0) (rev (placed g G [])) @ running_sol_s s\<rparr>,
                   map (\<lambda>r. nd r 0) (rev (placed g G [])) @ pn))
      \<and> covered g (store s) (CSof g G (ps @ [])) \<and> in_range g G (ps @ [])"
    using Nil.prems by (simp add: placed_def)
  then show ?case by (intro conjI allI impI exI [of _ "store s"]) simp_all
next
  case (Cons a cs)
  obtain i j where a: "a = (i, j)" by (cases a)
  have ij: "i < gN g" "j < gN g" using Cons.prems(4) by (simp_all add: a)
  have b1: "i < length G" using ij G by simp
  have b2: "j < length (G ! i)" using ij G b1 by simp
  have N: "GRID_SIZE_s s = int (gN g)" and rt: "root_s s = 1"
    using Cons.prems(1) by (simp_all add: fields_ok_def)
  have v: "gval G a = G ! i ! j" by (simp add: gval_def a)
  have nin: "a \<notin> set ps" using Cons.prems(3) by simp
  have psb: "\<forall>b\<in>set ps. fst b < gN g \<and> snd b < gN g" using Cons.prems(4) by simp
  show ?case
  proof (cases "bad_clue g G ps a")
    case True
    have sc: "scan g G ps (a # cs) = Some (ps, a)" using True by simp
    have sn: "scan g G ps (a # cs) \<noteq> None" using True by simp
    have nz: "gval G a \<noteq> 0" using True by (simp add: bad_clue_def)
    have "\<exists>h' rs. insert_clues G (a # cs) s pn
                 = Some (Inl (s\<lparr>store := h', running_sol_s := rs,
                                 printed := printed s @ [bad_msg g G a]\<rparr>))
          \<and> covered g h' (CSof g G ps)
          \<and> find_ec h' 1 (Node3 (int (fst a)) (int (snd a)) (gval G a - 1)) = Some 0"
    proof (cases "gval G a > int (gN g) \<or> gval G a < 0")
      case out: True
      have m: "bad_msg g G a = Invalid_puzzle" using out by (simp add: bad_msg_def)
      have "insert_clues G (a # cs) s pn
          = Some (Inl (s\<lparr>printed := printed s @ [Invalid_puzzle]\<rparr>))"
        unfolding a by (rule insert_clues_range [OF b1 b2]) (use out v N in simp)
      then have e: "insert_clues G (a # cs) s pn
          = Some (Inl (s\<lparr>store := store s, running_sol_s := running_sol_s s,
                          printed := printed s @ [bad_msg g G a]\<rparr>))"
        by (simp add: m)
      have "\<forall>r<NR g. int (ri g r) = int (fst a) \<and> int (rj g r) = int (snd a)
                \<and> int (rk g r) = gval G a - 1
                \<longrightarrow> (\<exists>f<4. colidx g f r \<in> set (CSof g G ps))"
      proof (intro allI impI)
        fix r assume "r < NR g" and t: "int (ri g r) = int (fst a) \<and> int (rj g r) = int (snd a)
                \<and> int (rk g r) = gval G a - 1"
        have "rk g r < gN g" by (rule rk_less [OF wf_geom_pos [OF wf]])
        then have False using t out by linarith
        then show "\<exists>f<4. colidx g f r \<in> set (CSof g G ps)" ..
      qed
      then have "find_ec (store s) 1 (Node3 (int (fst a)) (int (snd a)) (gval G a - 1)) = Some 0"
        by (rule find_miss [OF Cons.prems(2) wf])
      then show ?thesis using e Cons.prems(2) by blast
    next
      case inr: False
      have vr: "0 < gval G a" "gval G a \<le> int (gN g)" using inr nz by linarith+
      have cl: "\<exists>b\<in>set ps. gval G b = gval G a \<and> same_unit g b a"
        using True inr by (simp add: bad_clue_def)
      have m: "bad_msg g G a = Repeated_or_invalid (G ! i ! j) (int i + 1) (int j + 1)"
        using inr by (simp add: bad_msg_def v) (simp add: a)
      note F = clue_row_facts [OF wf _ _ vr, unfolded a fst_conv snd_conv, OF ij, folded a]
      have ci: "(\<exists>f<4. colidx g f (clue_row g G a) \<in> set (CSof g G ps))
          \<longleftrightarrow> (\<exists>b\<in>set ps. gval G b = gval G a \<and> same_unit g b a)"
        by (rule clash_covered [OF wf _ _ vr psb Cons.prems(5) nin]) (simp_all add: a ij)
      have cc: "\<exists>f<4. colidx g f (clue_row g G a) \<in> set (CSof g G ps)"
        using ci cl by blast
      have "\<forall>r<NR g. int (ri g r) = int (fst a) \<and> int (rj g r) = int (snd a)
                \<and> int (rk g r) = gval G a - 1
                \<longrightarrow> (\<exists>f<4. colidx g f r \<in> set (CSof g G ps))"
      proof (intro allI impI)
        fix r assume "r < NR g" and t: "int (ri g r) = int (fst a) \<and> int (rj g r) = int (snd a)
                \<and> int (rk g r) = gval G a - 1"
        have "r = clue_row g G a"
          by (rule triple_inj [of g]) (use t F(2-4) in \<open>simp_all add: a\<close>)
        then show "\<exists>f<4. colidx g f r \<in> set (CSof g G ps)" using cc by simp
      qed
      then have fm: "find_ec (store s) 1 (Node3 (int (fst a)) (int (snd a)) (gval G a - 1)) = Some 0"
        by (rule find_miss [OF Cons.prems(2) wf])
      have "insert_clues G (a # cs) s pn
          = Some (Inl (s\<lparr>printed := printed s
                     @ [Repeated_or_invalid (G ! i ! j) (int i + 1) (int j + 1)]\<rparr>))"
        unfolding a
        by (rule insert_clues_repeated [OF b1 b2]) (use vr v N rt fm in \<open>simp_all add: a\<close>)
      then have e: "insert_clues G (a # cs) s pn
          = Some (Inl (s\<lparr>store := store s, running_sol_s := running_sol_s s,
                          printed := printed s @ [bad_msg g G a]\<rparr>))"
        by (simp add: m)
      show ?thesis using e fm Cons.prems(2) by blast
    qed
    then show ?thesis
      unfolding sc by (simp only: option.inject prod.inject option.distinct simp_thms) blast
  next
    case False
    have sc: "scan g G ps (a # cs) = scan g G (ps @ [a]) cs" using False by simp
    have d': "distinct ((ps @ [a]) @ cs)" using Cons.prems(3) by simp
    have bd': "\<forall>a\<in>set ((ps @ [a]) @ cs). fst a < gN g \<and> snd a < gN g" using Cons.prems(4) by simp
    have ir': "in_range g G (ps @ [a])"
      using Cons.prems(5) False by (auto simp: in_range_def bad_clue_def)
    show ?thesis
    proof (cases "gval G a = 0")
      case z: True
      have st: "insert_clues G (a # cs) s pn = insert_clues G cs s pn"
        unfolding a by (rule insert_clues_blank [OF b1 b2]) (use z v N in simp_all)
      have cs': "CSof g G (ps @ [a]) = CSof g G ps" using z by (simp add: CSof_single)
      have pl: "placed g G (a # cs) = placed g G cs" using z by (simp add: placed_def)
      have cv': "covered g (store s) (CSof g G (ps @ [a]))" using Cons.prems(2) unfolding cs' .
      show ?thesis
        unfolding sc st pl
        using Cons.IH [OF Cons.prems(1) cv' d' bd' ir', of pn] by simp
    next
      case nz: False
      have vr: "0 < gval G a" "gval G a \<le> int (gN g)" using False nz by (auto simp: bad_clue_def)
      have ncl: "\<not> (\<exists>b\<in>set ps. gval G b = gval G a \<and> same_unit g b a)"
        using False nz by (simp add: bad_clue_def)
      define r where "r = clue_row g G a"
      note F0 = clue_row_facts [OF wf _ _ vr, unfolded a fst_conv snd_conv, OF ij, folded a]
      note F = F0 [folded r_def]
      have ci: "(\<exists>f<4. colidx g f (clue_row g G a) \<in> set (CSof g G ps))
          \<longleftrightarrow> (\<exists>b\<in>set ps. gval G b = gval G a \<and> same_unit g b a)"
        by (rule clash_covered [OF wf _ _ vr psb Cons.prems(5) nin]) (simp_all add: a ij)
      have fresh: "\<forall>f<4. colidx g f r \<notin> set (CSof g G ps)"
        using ci ncl unfolding r_def by blast
      have "find_ec (store s) 1 (Node3 (int (ri g r)) (int (rj g r)) (int (rk g r))) = Some (nd r 0)"
        by (rule find_hit [OF Cons.prems(2) wf F(1) fresh])
      then have fh: "find_ec (store s) (root_s s) (Node3 (int i) (int j) (G ! i ! j - 1)) = Some (nd r 0)"
        using F(2-4) by (simp add: rt a v [symmetric])
      from place_row [OF Cons.prems(2) wf F(1) fresh] obtain h1 h2 where
        h: "cover (store s) (col_header_n (store s (nd r 0))) = Some h1"
        "cover_others h1 (nd r 0) (right_n (h1 (nd r 0))) = Some h2"
        "covered g h2 (CSof g G ps @ cols4 g r)" by blast
      define s1 where "s1 = s\<lparr>store := h2, running_sol_s := nd r 0 # running_sol_s s\<rparr>"
      have n0: "nd r 0 \<noteq> 0" by (simp add: nd_def)
      have st: "insert_clues G (a # cs) s pn = insert_clues G cs s1 (nd r 0 # pn)"
        unfolding a s1_def
        by (rule insert_clues_place [OF b1 b2 _ _ fh n0 h(1,2)]) (use vr v N in simp_all)
      have cs': "CSof g G (ps @ [a]) = CSof g G ps @ cols4 g r" using nz by (simp add: CSof_single r_def)
      have pl: "placed g G (a # cs) = r # placed g G cs" using nz by (simp add: placed_def r_def)
      have ok1: "fields_ok g s1" using Cons.prems(1) by (simp add: s1_def)
      have "store s1 = h2" by (simp add: s1_def)
      then have cv1: "covered g (store s1) (CSof g G (ps @ [a]))" using h(3) unfolding cs' by simp
      note I = Cons.IH [OF ok1 cv1 d' bd' ir', of "nd r 0 # pn"]
      have u1: "s1\<lparr>store := h', running_sol_s := rs, printed := printed s1 @ m\<rparr>
          = s\<lparr>store := h', running_sol_s := rs, printed := printed s @ m\<rparr>" for h' rs m
        by (simp add: s1_def)
      have u2: "s1\<lparr>store := h', running_sol_s := xs @ running_sol_s s1\<rparr>
          = s\<lparr>store := h', running_sol_s := (xs @ [nd r 0]) @ running_sol_s s\<rparr>" for h' xs
        by (simp add: s1_def)
      show ?thesis
        unfolding sc st pl using I unfolding u1 u2 by simp
    qed
  qed
qed

lemma dpath_unique:
  "dpath nx pv a xs b \<Longrightarrow> dpath nx pv a ys b \<Longrightarrow> b \<notin> set xs \<Longrightarrow> b \<notin> set ys \<Longrightarrow> xs = ys"
proof (induction xs arbitrary: a ys)
  case Nil
  then show ?case by (cases ys) auto
next
  case (Cons x xs)
  then show ?case by (cases ys) auto
qed

lemma covered_not_pristine:
  assumes "covered g h CS" "CS \<noteq> []"
  shows "\<not> pristine g h"
proof
  assume "pristine g h"
  then have p: "hpath h 1 (live_cols g {}) 1" by (simp add: pristine_def rep_def)
  have q: "hpath h 1 (live_cols g (set CS)) 1" using assms(1) by (simp add: covered_def rep_def)
  have e: "live_cols g {} = live_cols g (set CS)"
    by (rule dpath_unique [OF p q]) (use live_cols_distinct [of g] in auto)
  obtain c where c: "c \<in> set CS" using assms(2) by (cases CS) auto
  then have cl: "c < NC g" using assms(1) by (simp add: covered_def)
  have "hdr g c \<in> set (live_cols g {})" using cl by (simp add: live_cols_def)
  moreover have "hdr g c \<notin> set (live_cols g (set CS))" using c by (auto simp: live_cols_def hdr_facts(3))
  ultimately show False using e by simp
qed

text \<open>What \<open>init\<close> has built when it returns true.\<close>

lemma init_true:
  assumes "init ExactCoverSolver n = Some (True, s)"
  shows "supported n" "pristine (geom_of s) (store s)" "wf_geom (geom_of s)"
    "fields_ok (geom_of s) s" "NC (geom_of s) = nat (4 * n * n)"
    "NR (geom_of s) = nat (n * n * n)" "gN (geom_of s) = nat n"
    "running_sol_s s = []" "\<not> solved_s s" "printed s = []" "0 \<le> n"
    "geom_of s = \<lparr>gN = nat n, gR = nat (snd (box_divs n)), gC = nat (fst (box_divs n))\<rparr>"
proof -
  show sp: "supported n"
  proof (rule ccontr)
    assume "\<not> supported n"
    then show False using init_unsupported [of n ExactCoverSolver] assms by auto
  qed
  from init_geom [OF sp] obtain s' where
    s': "init ExactCoverSolver n = Some (True, s')"
    "pristine (geom_of s') (store s')" "wf_geom (geom_of s')"
    "fields_ok (geom_of s') s'" "NC (geom_of s') = nat (4 * n * n)"
    "NR (geom_of s') = nat (n * n * n)" "int (gN (geom_of s')) = n"
    "running_sol_s s' = []" "\<not> solved_s s'" "printed s' = []"
    by blast
  have e: "s' = s" using s'(1) assms by simp
  show "pristine (geom_of s) (store s)" "wf_geom (geom_of s)"
    "fields_ok (geom_of s) s" "NC (geom_of s) = nat (4 * n * n)"
    "NR (geom_of s) = nat (n * n * n)" "running_sol_s s = []" "\<not> solved_s s" "printed s = []"
    using s' by (simp_all add: e)
  show N: "gN (geom_of s) = nat n" using s'(7) by (auto simp: e)
  show "0 \<le> n" using s'(7) by (simp add: e [symmetric])
  from init_supported [OF fresh_solver_ExactCoverSolver sp] obtain s'' where
    t: "init ExactCoverSolver n = Some (True, s'')" "GRID_SIZE_s s'' = n"
    "(COL_BOX_DIV_s s'', ROW_BOX_DIV_s s'') = box_divs n" by blast
  have "s'' = s" using t(1) assms by simp
  then show "geom_of s = \<lparr>gN = nat n, gR = nat (snd (box_divs n)), gC = nat (fst (box_divs n))\<rparr>"
    using t(2,3) by (simp add: geom_of_def) (metis fst_conv snd_conv)
qed

lemma cells_facts:
  "distinct (cells N)" "a \<in> set (cells N) \<longleftrightarrow> fst a < N \<and> snd a < N"
  by (cases a; auto simp: cells_def distinct_product)+

lemma scan_Some:
  "scan g G ps cs = Some (ps', a) \<Longrightarrow>
   \<exists>xs ys. cs = xs @ a # ys \<and> ps' = ps @ xs \<and> bad_clue g G ps' a
     \<and> (\<forall>us b vs. xs = us @ b # vs \<longrightarrow> \<not> bad_clue g G (ps @ us) b)"
proof (induction cs arbitrary: ps)
  case Nil
  then show ?case by simp
next
  case (Cons c cs)
  show ?case
  proof (cases "bad_clue g G ps c")
    case True
    then have "ps' = ps" "a = c" using Cons.prems by simp_all
    then show ?thesis using True by (intro exI [of _ "[]"] exI [of _ cs]) simp
  next
    case False
    then have "scan g G (ps @ [c]) cs = Some (ps', a)" using Cons.prems by simp
    from Cons.IH [OF this] obtain xs ys where
      x: "cs = xs @ a # ys" "ps' = (ps @ [c]) @ xs" "bad_clue g G ps' a"
      "\<forall>us b vs. xs = us @ b # vs \<longrightarrow> \<not> bad_clue g G ((ps @ [c]) @ us) b" by blast
    have "\<not> bad_clue g G (ps @ us) b" if "c # xs = us @ b # vs" for us b vs
    proof (cases us)
      case Nil
      then show ?thesis using that False by simp
    next
      case (Cons u us')
      then have "xs = us' @ b # vs" "u = c" using that by simp_all
      then show ?thesis using x(4) [rule_format, of us' b vs] Cons by simp
    qed
    then show ?thesis using x(1-3) by (intro exI [of _ "c # xs"] exI [of _ ys]) simp
  qed
qed

lemma scan_None:
  "scan g G ps cs = None \<Longrightarrow> cs = xs @ a # ys \<Longrightarrow> \<not> bad_clue g G (ps @ xs) a"
proof (induction cs arbitrary: ps xs)
  case Nil
  then show ?case by simp
next
  case (Cons c cs)
  have nb: "\<not> bad_clue g G ps c" and sc: "scan g G (ps @ [c]) cs = None"
    using Cons.prems(1) by (simp_all split: if_splits)
  show ?case
  proof (cases xs)
    case Nil
    then show ?thesis using Cons.prems(2) nb by simp
  next
    case (Cons x xs')
    then have "cs = xs' @ a # ys" "x = c" using Cons.prems(2) by simp_all
    then show ?thesis using Cons.IH [OF sc, of xs'] Cons by simp
  qed
qed

lemma same_unit_sym: "same_unit g a b \<longleftrightarrow> same_unit g b a"
  by (auto simp: same_unit_def)

lemma invalid_scan:
  assumes "invalid_grid g G"
  shows "scan g G [] (cells (gN g)) \<noteq> None"
proof
  assume sn: "scan g G [] (cells (gN g)) = None"
  from assms obtain a where a: "a \<in> set (cells (gN g))" "gval G a \<noteq> 0"
    and c: "gval G a > int (gN g) \<or> gval G a < 0
           \<or> (\<exists>b\<in>set (cells (gN g)). b \<noteq> a \<and> gval G b = gval G a \<and> same_unit g b a)"
    unfolding invalid_grid_def by blast
  obtain xs ys where s: "cells (gN g) = xs @ a # ys" using split_list [OF a(1)] by blast
  have na: "\<not> bad_clue g G xs a" using scan_None [OF sn s] by simp
  then obtain b where b: "b \<in> set (cells (gN g))" "b \<noteq> a" "gval G b = gval G a" "same_unit g b a"
    using a(2) c unfolding bad_clue_def by blast
  have "b \<notin> set xs" using na a(2) b(3,4) unfolding bad_clue_def by blast
  then have "b \<in> set ys" using b(1,2) s by auto
  then obtain ys1 ys2 where t: "ys = ys1 @ b # ys2" using split_list by fastforce
  have "cells (gN g) = (xs @ a # ys1) @ b # ys2" using s t by simp
  then have nb: "\<not> bad_clue g G ([] @ xs @ a # ys1) b" using scan_None [OF sn] by blast
  have ir: "\<not> (gval G a > int (gN g) \<or> gval G a < 0)" using na a(2) unfolding bad_clue_def by blast
  have m: "a \<in> set ([] @ xs @ a # ys1)" by simp
  have "bad_clue g G ([] @ xs @ a # ys1) b"
    unfolding bad_clue_def using a(2) b(3,4) same_unit_sym [of g a b] m by metis
  then show False using nb by simp
qed

lemma before_split: "distinct (xs @ a # ys) \<Longrightarrow> takeWhile (\<lambda>b. b \<noteq> a) (xs @ a # ys) = xs"
  by (induction xs) auto

text \<open>The early return of \<open>solve\<close> at the first bad clue.\<close>

lemma solve_grid_bad:
  assumes init: "init ExactCoverSolver n = Some (True, s)"
    and G: "length G = nat n" "\<forall>row\<in>set G. length row = nat n"
    and sc: "scan (geom_of s) G [] (cells (nat n)) = Some (ps, a)"
  shows "\<exists>s'. (\<forall>d. solve_grid d s G = Some s')
      \<and> insert_clues G (cells (nat n))
           (s\<lparr>solved_s := False, total_competition_s := 0, running_sol_s := []\<rparr>) [] = Some (Inl s')
      \<and> \<not> solved_s s' \<and> total_competition_s s' = 0
      \<and> printed s' = [bad_msg (geom_of s) G a]
      \<and> covered (geom_of s) (store s') (CSof (geom_of s) G ps)
      \<and> find_ec (store s') (root_s s') (Node3 (int (fst a)) (int (snd a)) (gval G a - 1)) = Some 0
      \<and> geom_of s' = geom_of s"
proof -
  let ?g = "geom_of s"
  note I = init_true [OF init]
  define s0 where "s0 = s\<lparr>solved_s := False, total_competition_s := 0, running_sol_s := []\<rparr>"
  have N: "gN ?g = nat n" by (rule I(7))
  have ok: "fields_ok ?g s0" using I(4) by (simp add: s0_def)
  have cv: "covered ?g (store s0) (CSof ?g G [])"
    using I(2) by (simp add: pristine_covered s0_def CSof_def placed_def)
  have d: "distinct ([] @ cells (nat n))" using cells_facts(1) by simp
  have b: "\<forall>a\<in>set ([] @ cells (nat n)). fst a < gN ?g \<and> snd a < gN ?g"
    using cells_facts(2) by (simp add: N)
  have ir: "in_range ?g G []" by (simp add: in_range_def)
  have G': "length G = gN ?g" "\<forall>row\<in>set G. length row = gN ?g" using G by (simp_all add: N)
  from insert_clues_scan [OF I(3) G' ok cv d b ir, of "[]"] sc obtain h' rs where
    r: "insert_clues G (cells (nat n)) s0 []
        = Some (Inl (s0\<lparr>store := h', running_sol_s := rs,
                        printed := printed s0 @ [bad_msg ?g G a]\<rparr>))"
    "covered ?g h' (CSof ?g G ps)"
    "find_ec h' 1 (Node3 (int (fst a)) (int (snd a)) (gval G a - 1)) = Some 0"
    by blast
  define s' where "s' = s0\<lparr>store := h', running_sol_s := rs,
                        printed := printed s0 @ [bad_msg ?g G a]\<rparr>"
  have gs: "GRID_SIZE_s s0 = n" using ok N I(11) by (simp add: fields_ok_def)
  have sg: "solve_grid d s G = Some s'" for d
    unfolding solve_grid_def Let_def s0_def [symmetric] gs r(1) by (simp add: s'_def)
  have rt: "root_s s' = 1" using ok by (simp add: s'_def fields_ok_def)
  have f: "\<not> solved_s s'" "total_competition_s s' = 0" "printed s' = [bad_msg ?g G a]"
    "store s' = h'" "geom_of s' = ?g"
    using I(10) by (simp_all add: s'_def s0_def geom_of_def)
  show ?thesis
    using sg r f rt by (intro exI [of _ s']) (simp add: s'_def [symmetric] s0_def [symmetric])
qed

lemma grid_repeat_dims: "length grid_repeat = nat 9" "\<forall>row\<in>set grid_repeat. length row = nat 9"
  by (simp_all add: grid_repeat_def)

lemma cells_head: "\<exists>rest. cells (nat 9) = (0, 0) # (0, 1) # rest"
proof -
  have "[0..<nat 9] = 0 # 1 # [2..<9]" by (simp add: upt_conv_Cons)
  then show ?thesis by (simp add: cells_def)
qed

lemma scan_grid_repeat:
  assumes "gN g = 9"
  shows "scan g grid_repeat [] (cells (nat 9)) = Some ([(0, 0)], (0, 1))"
proof -
  obtain rest where c: "cells (nat 9) = (0, 0) # (0, 1) # rest" using cells_head by blast
  have v: "gval grid_repeat (0, 0) = 5" "gval grid_repeat (0, 1) = 5"
    "gval grid_repeat (0, Suc 0) = 5"
    by (simp_all add: gval_def grid_repeat_def)
  have a: "\<not> bad_clue g grid_repeat [] (0, 0)" by (simp add: bad_clue_def v assms)
  have b: "bad_clue g grid_repeat ([] @ [(0, 0)]) (0, 1)" by (simp add: bad_clue_def v same_unit_def)
  show ?thesis unfolding c using a b by simp
qed

text \<open>
  Claim C6. Let \<open>init\<close> have built the matrix for size \<open>n\<close>, and let an \<open>n\<close> by \<open>n\<close> grid
  hold a clue that is out of range or that repeats the clue of another cell of its row,
  column or box. Then \<open>solve\<close> returns from the loop over the clues, at the first cell
  \<open>a\<close> whose clue is out of range or repeats an earlier one: for every depth allowed to
  the search the result is the state of that return, \<open>find\<close> on its store returns
  \<open>NULL\<close> for the triple of \<open>a\<close>, the search has counted nothing, the one message printed
  is not the message of an unsolvable puzzle, and \<open>is_solved\<close> is false.
\<close>

theorem invalid_clue_detected:
  assumes "init ExactCoverSolver n = Some (True, s)"
    and "length G = nat n" and "\<forall>row\<in>set G. length row = nat n"
    and "invalid_grid (geom_of s) G"
  shows "\<exists>a s'. a \<in> set (cells (nat n))
      \<and> bad_clue (geom_of s) G (before (nat n) a) a
      \<and> (\<forall>b\<in>set (before (nat n) a). \<not> bad_clue (geom_of s) G (before (nat n) b) b)
      \<and> (\<forall>d. solve_grid d s G = Some s')
      \<and> insert_clues G (cells (nat n))
           (s\<lparr>solved_s := False, total_competition_s := 0, running_sol_s := []\<rparr>) []
         = Some (Inl s')
      \<and> find_ec (store s') (root_s s') (Node3 (int (fst a)) (int (snd a)) (gval G a - 1)) = Some 0
      \<and> total_competition_s s' = 0
      \<and> printed s' = [bad_msg (geom_of s) G a] \<and> bad_msg (geom_of s) G a \<noteq> Not_solvable
      \<and> \<not> is_solved s'"
proof -
  let ?g = "geom_of s"
  have N: "gN ?g = nat n" by (rule init_true(7) [OF assms(1)])
  obtain ps a where sc: "scan ?g G [] (cells (nat n)) = Some (ps, a)"
    using invalid_scan [OF assms(4)] by (auto simp: N)
  from scan_Some [OF sc] obtain xs ys where
    x: "cells (nat n) = xs @ a # ys" "ps = xs" "bad_clue ?g G ps a"
    "\<forall>us b vs. xs = us @ b # vs \<longrightarrow> \<not> bad_clue ?g G ([] @ us) b" by auto
  have d: "distinct (xs @ a # ys)" using cells_facts(1) [of "nat n"] by (simp add: x(1))
  have ba: "before (nat n) a = xs" unfolding before_def x(1) by (rule before_split [OF d])
  have first: "\<not> bad_clue ?g G (before (nat n) b) b" if bx: "b \<in> set xs" for b
  proof -
    obtain us vs where s: "xs = us @ b # vs" using split_list [OF bx] by blast
    have "distinct (us @ b # (vs @ a # ys))" using d by (simp add: s)
    then have "takeWhile (\<lambda>c. c \<noteq> b) (us @ b # (vs @ a # ys)) = us" by (rule before_split)
    then have e: "before (nat n) b = us" by (simp add: before_def x(1) s)
    have "\<not> bad_clue ?g G ([] @ us) b" using x(4) s by blast
    then show ?thesis by (simp add: e)
  qed
  from solve_grid_bad [OF assms(1-3) sc] obtain s' where
    s': "\<forall>d. solve_grid d s G = Some s'"
    "insert_clues G (cells (nat n))
           (s\<lparr>solved_s := False, total_competition_s := 0, running_sol_s := []\<rparr>) [] = Some (Inl s')"
    "\<not> solved_s s'" "total_competition_s s' = 0" "printed s' = [bad_msg ?g G a]"
    "find_ec (store s') (root_s s') (Node3 (int (fst a)) (int (snd a)) (gval G a - 1)) = Some 0"
    by blast
  have m: "bad_msg ?g G a \<noteq> Not_solvable" by (simp add: bad_msg_def)
  have am: "a \<in> set (cells (nat n))" by (simp add: x(1))
  have b1: "bad_clue ?g G (before (nat n) a) a" using x(3) by (simp add: ba x(2))
  have b2: "\<forall>b\<in>set (before (nat n) a). \<not> bad_clue ?g G (before (nat n) b) b"
    using first by (simp add: ba)
  show ?thesis
    by (intro exI [of _ a] exI [of _ s'] conjI)
      (use am b1 b2 s' m in \<open>simp_all add: is_solved_def\<close>)
qed

theorem invalid_clue_detected_witness:
  "\<exists>s. init ExactCoverSolver 9 = Some (True, s)
      \<and> length grid_repeat = nat 9 \<and> (\<forall>row\<in>set grid_repeat. length row = nat 9)
      \<and> invalid_grid (geom_of s) grid_repeat
      \<and> (\<exists>a s'. a \<in> set (cells (nat 9))
            \<and> (\<forall>d. solve_grid d s grid_repeat = Some s')
            \<and> find_ec (store s') (root_s s')
                 (Node3 (int (fst a)) (int (snd a)) (gval grid_repeat a - 1)) = Some 0
            \<and> total_competition_s s' = 0
            \<and> printed s' = [bad_msg (geom_of s) grid_repeat a]
            \<and> bad_msg (geom_of s) grid_repeat a \<noteq> Not_solvable
            \<and> \<not> is_solved s')"
proof -
  have "supported 9" by (simp add: supported_def)
  from init_geom [OF this] obtain s where i: "init ExactCoverSolver 9 = Some (True, s)" by blast
  have N: "gN (geom_of s) = 9" using init_true(7) [OF i] by simp
  have m: "(0, 1) \<in> set (cells (gN (geom_of s)))" "(0, 0) \<in> set (cells (gN (geom_of s)))"
    by (simp_all add: cells_facts(2) N)
  have v: "gval grid_repeat (0, 0) = 5" "gval grid_repeat (0, 1) = 5"
    "gval grid_repeat (0, Suc 0) = 5"
    by (simp_all add: gval_def grid_repeat_def)
  have su: "same_unit (geom_of s) (0, 0) (0, 1)" by (simp add: same_unit_def)
  have ne: "((0::nat), (0::nat)) \<noteq> (0, 1)" by simp
  have inv: "invalid_grid (geom_of s) grid_repeat"
    unfolding invalid_grid_def using m v su ne by (intro bexI [of _ "(0, 1)"]) auto
  show ?thesis
    using invalid_clue_detected [OF i grid_repeat_dims inv] i grid_repeat_dims inv by blast
qed

text \<open>
  Claim C2, refuted by the code. On the matrix built for size 9, \<open>solve\<close> on
  \<open>grid_repeat\<close> returns at the second clue of the first row, with the message for a
  repeated value, and the store it leaves is not the built matrix: the four columns
  covered for the first clue stay covered.
\<close>

theorem early_return_skips_restore:
  "\<exists>s s'. init ExactCoverSolver 9 = Some (True, s)
      \<and> pristine (geom_of s) (store s)
      \<and> (\<forall>d. solve_grid d s grid_repeat = Some s')
      \<and> printed s' = [Repeated_or_invalid 5 1 2]
      \<and> geom_of s' = geom_of s
      \<and> covered (geom_of s') (store s') (cols4 (geom_of s') 4)
      \<and> \<not> pristine (geom_of s') (store s')"
proof -
  have "supported 9" by (simp add: supported_def)
  from init_geom [OF this] obtain s where i: "init ExactCoverSolver 9 = Some (True, s)" by blast
  let ?g = "geom_of s"
  have N: "gN ?g = 9" using init_true(7) [OF i] by simp
  have v: "gval grid_repeat (0, 0) = 5" "gval grid_repeat (0, 1) = 5"
    "gval grid_repeat (0, Suc 0) = 5"
    by (simp_all add: gval_def grid_repeat_def)
  from solve_grid_bad [OF i grid_repeat_dims scan_grid_repeat [OF N]] obtain s' where
    s': "\<forall>d. solve_grid d s grid_repeat = Some s'"
    "printed s' = [bad_msg ?g grid_repeat (0, 1)]"
    "covered ?g (store s') (CSof ?g grid_repeat [(0, 0)])" "geom_of s' = ?g"
    by blast
  have m: "bad_msg ?g grid_repeat (0, 1) = Repeated_or_invalid 5 1 2"
    by (simp add: bad_msg_def v N)
  have c: "CSof ?g grid_repeat [(0, 0)] = cols4 ?g 4"
    by (simp add: CSof_single v clue_row_def rowof_def)
  have "cols4 ?g 4 \<noteq> []" by (simp add: cols4_def)
  then have np: "\<not> pristine ?g (store s')"
    using covered_not_pristine [OF s'(3)] by (simp add: c)
  have pr: "printed s' = [Repeated_or_invalid 5 1 2]" using s'(2) m by simp
  have cv: "covered (geom_of s') (store s') (cols4 (geom_of s') 4)" using s'(3) by (simp add: c s'(4))
  have np': "\<not> pristine (geom_of s') (store s')" using np by (simp add: s'(4))
  show ?thesis
    using i init_true(2) [OF i] s'(1,4) pr cv np' by blast
qed

theorem early_return_skips_restore_witness:
  "\<exists>s s'. init ExactCoverSolver 9 = Some (True, s)
      \<and> (\<forall>d. solve_grid d s grid_repeat = Some s')
      \<and> \<not> pristine (geom_of s') (store s')"
  using early_return_skips_restore by blast








end
